theory Spec2Isabelle
  imports Complex_Main
begin

section \<open>The pre-signed transaction pool of the reaction-time game\<close>

text \<open>
  The development embeds the single-player page component (the source file with
  \<^verbatim>\<open>preSignedPool\<close>, \<^verbatim>\<open>preSignBatch\<close>, \<^verbatim>\<open>getNextTransaction\<close> and \<^verbatim>\<open>handleClick\<close>).
  The module-level variables and the state of the mounted component instance form one
  record, the world. Every piece of asynchronous work (the start-up queries, the gas
  estimate, a batch of signings) is a promise in a promise table; the environment settles a
  pending promise by an event, and the code that follows the corresponding \<^verbatim>\<open>await\<close> or
  \<^verbatim>\<open>.then\<close> runs in that step. A JavaScript \<^verbatim>\<open>number\<close> that counts (nonce, index, round)
  is a \<open>nat\<close>, exact below \<open>2 ^ 53\<close>; a \<^verbatim>\<open>bigint\<close> is an \<open>int\<close>; a reading of
  \<^verbatim>\<open>performance.now()\<close> is a \<open>rat\<close>.
\<close>

subsection \<open>Data\<close>

type_synonym address = string
type_synonym hex = string

datatype txType = legacy

text \<open>The object literal \<^verbatim>\<open>txData\<close> built in \<^verbatim>\<open>preSignBatch\<close>.\<close>

record txData =
  tx_to :: address
  tx_value :: int
  tx_data :: hex
  tx_nonce :: nat
  tx_gasPrice :: int
  tx_gas :: int
  tx_type :: txType

text \<open>
  What \<^verbatim>\<open>client.signTransaction\<close> resolves to: the serialised transaction, that is its
  fields together with the signature the signer produced.
\<close>

record signedTransaction =
  payload :: txData
  signature :: hex

record pool =
  transactions :: "signedTransaction list"
  currentIndex :: nat
  baseNonce :: nat
  hasTriggeredRefill :: bool

datatype GameState = IDLE | WAITING | READY | CLICKED | FINISHED | TOO_EARLY

record Result =
  attempt :: nat
  reactionTime :: int
  txTime :: int
  totalTime :: int
  failed :: bool

datatype error = NoPreSignedTransactionsAvailable

text \<open>
  What runs when a signing batch settles: the rest of \<^verbatim>\<open>init\<close> of the component instance
  with the given number, or the \<^verbatim>\<open>.then\<close> callback of the refill.
\<close>

datatype continuation = InitCont nat | RefillCont

text \<open>
  The asynchronous work a promise stands for: \<^verbatim>\<open>Promise.all\<close> of the two start-up
  queries, \<^verbatim>\<open>estimateGas\<close> (with the local \<^verbatim>\<open>nonce\<close> of \<^verbatim>\<open>init\<close>), and the
  \<^verbatim>\<open>Promise.all\<close> of the signings of one batch.
\<close>

datatype job = Queries nat | EstimateGas nat nat | SignBatch "txData list" continuation

datatype promiseState = Pending | Fulfilled | Rejected

record promise =
  job :: job
  state :: promiseState

datatype logEntry =
    GasEstimated int
  | PreSigned nat nat
  | Refilling nat
  | FailedToInitialize
  | TransactionFailed

text \<open>A call of \<^verbatim>\<open>handleClick\<close> suspended at \<^verbatim>\<open>await client.request\<close>, with its locals.\<close>

record click =
  c_attempt :: nat
  c_reactionTime :: int
  c_txStart :: rat
  c_signedTx :: "signedTransaction option"

record world =
  preSignedPool :: pool
  gasPrice :: int
  gasLimit :: int
  mountId :: nat
  gameState :: GameState
  currentRound :: nat
  results :: "Result list"
  isReady :: bool
  greenTimeRef :: rat
  clickTimeRef :: rat
  animFrameRef :: bool
  promises :: "promise list"
  suspended :: "click option"
  console :: "logEntry list"

definition initialWorld :: world where
  "initialWorld =
     \<lparr>preSignedPool =
        \<lparr>transactions = [], currentIndex = 0, baseNonce = 0, hasTriggeredRefill = False\<rparr>,
      gasPrice = 0, gasLimit = 21000, mountId = 0,
      gameState = IDLE, currentRound = 0, results = [], isReady = False,
      greenTimeRef = 0, clickTimeRef = 0, animFrameRef = False,
      promises = [], suspended = None, console = []\<rparr>"

definition ADJUSTMENT :: int where
  "ADJUSTMENT = 100"

subsection \<open>Library functions of the language\<close>

definition hexDigit :: "nat \<Rightarrow> char" where
  "hexDigit d = ''0123456789abcdef'' ! d"

text \<open>\<^verbatim>\<open>Number.prototype.toString(16)\<close> on a natural number.\<close>

function toString16 :: "nat \<Rightarrow> string" where
  "toString16 n =
     (if n < 16 then [hexDigit n] else toString16 (n div 16) @ [hexDigit (n mod 16)])"
  by pat_completeness auto
termination
  by (relation "measure (\<lambda>n. n)") auto

declare toString16.simps [simp del]

text \<open>\<^verbatim>\<open>String.prototype.padStart\<close> with a filler of one character.\<close>

definition padStart :: "nat \<Rightarrow> char \<Rightarrow> string \<Rightarrow> string" where
  "padStart n c s = replicate (n - length s) c @ s"

text \<open>\<^verbatim>\<open>Math.round\<close>: the nearest integer, a half rounded up.\<close>

definition js_round :: "rat \<Rightarrow> int" where
  "js_round x = \<lfloor>x + 1 / 2\<rfloor>"

text \<open>Reading an array element: \<open>None\<close> is \<^verbatim>\<open>undefined\<close>, the value out of range.\<close>

definition element :: "'a list \<Rightarrow> nat \<Rightarrow> 'a option" where
  "element xs i = (if i < length xs then Some (xs ! i) else None)"

text \<open>\<^verbatim>\<open>Promise.all\<close>: rejected as soon as one member is, else the list of the values.\<close>

fun promiseAll :: "'a option list \<Rightarrow> 'a list option" where
  "promiseAll [] = Some []"
| "promiseAll (None # rs) = None"
| "promiseAll (Some x # rs) = map_option ((#) x) (promiseAll rs)"

subsection \<open>Signing a batch\<close>

text \<open>The body of the callback of \<^verbatim>\<open>Array.from\<close> up to the call of the signer.\<close>

definition txDataFor :: "address \<Rightarrow> int \<Rightarrow> int \<Rightarrow> nat \<Rightarrow> nat \<Rightarrow> txData" where
  "txDataFor acct gp gl startNonce i =
     \<lparr>tx_to = acct, tx_value = 0,
      tx_data = ''0x'' @ padStart 2 (CHR ''0'') (toString16 (i + 1)),
      tx_nonce = startNonce + i, tx_gasPrice = gp, tx_gas = gl, tx_type = legacy\<rparr>"

text \<open>
  \<^verbatim>\<open>preSignBatch\<close> up to its \<^verbatim>\<open>await\<close>: the transactions are built and handed to the
  signer at the call, with the gas parameters of that moment.
\<close>

definition preSignBatch :: "address \<Rightarrow> nat \<Rightarrow> nat \<Rightarrow> continuation \<Rightarrow> world \<Rightarrow> world" where
  "preSignBatch acct startNonce batchSize k w =
     w\<lparr>promises := promises w @
          [\<lparr>job = SignBatch
                    (map (txDataFor acct (gasPrice w) (gasLimit w) startNonce) [0..<batchSize]) k,
            state = Pending\<rparr>]\<rparr>"

text \<open>\<^verbatim>\<open>preSignBatch\<close> after its \<^verbatim>\<open>await\<close>, when every signing has succeeded.\<close>

definition preSignBatch_resume :: "signedTransaction list \<Rightarrow> nat \<Rightarrow> world \<Rightarrow> world" where
  "preSignBatch_resume newTransactions batchSize w =
     (let p = (preSignedPool w)\<lparr>transactions := transactions (preSignedPool w) @ newTransactions\<rparr>
      in w\<lparr>preSignedPool := p,
           console := console w @ [PreSigned batchSize (length (transactions p))]\<rparr>)"

definition signTransaction :: "(txData \<Rightarrow> hex option) \<Rightarrow> txData \<Rightarrow> signedTransaction option" where
  "signTransaction sign t = map_option (\<lambda>s. \<lparr>payload = t, signature = s\<rparr>) (sign t)"

definition settle :: "nat \<Rightarrow> promiseState \<Rightarrow> world \<Rightarrow> world" where
  "settle k st w = w\<lparr>promises := (promises w)[k := (promises w ! k)\<lparr>state := st\<rparr>]\<rparr>"

text \<open>A state setter of the instance \<open>m\<close> does nothing once that instance is unmounted.\<close>

definition setIsReady :: "nat \<Rightarrow> bool \<Rightarrow> world \<Rightarrow> world" where
  "setIsReady m b w = (if m = mountId w then w\<lparr>isReady := b\<rparr> else w)"

text \<open>
  The signings of promise \<open>k\<close> settle, \<open>sign\<close> giving the signature or, as \<open>None\<close>, the
  failure of each. On success \<^verbatim>\<open>preSignBatch\<close> resumes and its caller continues: \<^verbatim>\<open>init\<close>
  sets \<^verbatim>\<open>isReady\<close>, the refill's \<^verbatim>\<open>.then\<close> callback clears the guard. On failure
  \<^verbatim>\<open>init\<close> reaches its \<^verbatim>\<open>catch\<close>; the refill has no handler for a rejection. The
  resumption and the continuation are one step: they run as microtasks, before any other
  event is handled.
\<close>

definition batchSettled :: "nat \<Rightarrow> (txData \<Rightarrow> hex option) \<Rightarrow> world \<Rightarrow> world" where
  "batchSettled k sign w =
     (if k < length (promises w) \<and> state (promises w ! k) = Pending then
        (case job (promises w ! k) of
           SignBatch txs c \<Rightarrow>
             (case promiseAll (map (signTransaction sign) txs) of
                Some newTransactions \<Rightarrow>
                  (let w1 = preSignBatch_resume newTransactions (length txs) (settle k Fulfilled w)
                   in case c of
                        RefillCont \<Rightarrow>
                          w1\<lparr>preSignedPool := (preSignedPool w1)\<lparr>hasTriggeredRefill := False\<rparr>\<rparr>
                      | InitCont m \<Rightarrow> setIsReady m True w1)
              | None \<Rightarrow>
                  (let w1 = settle k Rejected w
                   in case c of
                        RefillCont \<Rightarrow> w1
                      | InitCont m \<Rightarrow> w1\<lparr>console := console w1 @ [FailedToInitialize]\<rparr>))
         | _ \<Rightarrow> w)
      else w)"

subsection \<open>Initialisation\<close>

text \<open>
  The component mounts: a fresh instance with the initial values of its \<^verbatim>\<open>useState\<close> and
  \<^verbatim>\<open>useRef\<close> hooks replaces the previous one, and the effect calls \<^verbatim>\<open>init\<close>, which runs
  to its first \<^verbatim>\<open>await\<close>. The module-level pool and gas parameters are left as they are:
  the home page links to this page and this page links back to it, so the component can
  mount several times while the module stays loaded. What an instance has started goes on
  after it is unmounted; its state setters then do nothing.
\<close>

definition mount :: "world \<Rightarrow> world" where
  "mount w =
     w\<lparr>mountId := mountId w + 1,
       gameState := IDLE, currentRound := 0, results := [], isReady := False,
       greenTimeRef := 0, clickTimeRef := 0, animFrameRef := False, suspended := None,
       promises := promises w @ [\<lparr>job = Queries (mountId w + 1), state = Pending\<rparr>]\<rparr>"

text \<open>The two start-up queries settle: \<open>Some (nonce, gas)\<close>, or \<open>None\<close> when one fails.\<close>

definition queriesSettled :: "nat \<Rightarrow> (nat \<times> int) option \<Rightarrow> world \<Rightarrow> world" where
  "queriesSettled k r w =
     (if k < length (promises w) \<and> state (promises w ! k) = Pending then
        (case job (promises w ! k) of
           Queries m \<Rightarrow>
             (case r of
                Some (nonce, gas) \<Rightarrow>
                  (let w1 = settle k Fulfilled w;
                       w2 = w1\<lparr>gasPrice := gas,
                               preSignedPool := (preSignedPool w1)\<lparr>baseNonce := nonce\<rparr>\<rparr>
                   in w2\<lparr>promises := promises w2 @
                           [\<lparr>job = EstimateGas m nonce, state = Pending\<rparr>]\<rparr>)
              | None \<Rightarrow>
                  (let w1 = settle k Rejected w
                   in w1\<lparr>console := console w1 @ [FailedToInitialize]\<rparr>))
         | _ \<Rightarrow> w)
      else w)"

definition estimateSettled :: "address \<Rightarrow> nat \<Rightarrow> int option \<Rightarrow> world \<Rightarrow> world" where
  "estimateSettled acct k r w =
     (if k < length (promises w) \<and> state (promises w ! k) = Pending then
        (case job (promises w ! k) of
           EstimateGas m nonce \<Rightarrow>
             (case r of
                Some estimatedGas \<Rightarrow>
                  (let w1 = settle k Fulfilled w;
                       w2 = w1\<lparr>gasLimit := estimatedGas,
                               console := console w1 @ [GasEstimated estimatedGas]\<rparr>
                   in preSignBatch acct nonce 10 (InitCont m) w2)
              | None \<Rightarrow>
                  (let w1 = settle k Rejected w
                   in w1\<lparr>console := console w1 @ [FailedToInitialize]\<rparr>))
         | _ \<Rightarrow> w)
      else w)"

subsection \<open>Taking a transaction\<close>

definition getNextTransaction ::
  "address \<Rightarrow> world \<Rightarrow> error + (signedTransaction option \<times> world)" where
  "getNextTransaction acct w =
     (let p = preSignedPool w in
      if currentIndex p \<ge> length (transactions p) then Inl NoPreSignedTransactionsAvailable
      else
        (let tx = element (transactions p) (currentIndex p);
             p1 = p\<lparr>currentIndex := currentIndex p + 1\<rparr>
         in if currentIndex p1 mod 5 = 0 \<and> \<not> hasTriggeredRefill p1 then
              (let p2 = p1\<lparr>hasTriggeredRefill := True\<rparr>;
                   nextNonce = baseNonce p2 + length (transactions p2);
                   w1 = w\<lparr>preSignedPool := p2,
                          console := console w @ [Refilling (currentIndex p1)]\<rparr>
               in Inr (tx, preSignBatch acct nextNonce 10 RefillCont w1))
            else Inr (tx, w\<lparr>preSignedPool := p1\<rparr>)))"

subsection \<open>The game\<close>

definition clearTimers :: "world \<Rightarrow> world" where
  "clearTimers w = w\<lparr>animFrameRef := False\<rparr>"

text \<open>\<^verbatim>\<open>startRound\<close>: the frame callback \<^verbatim>\<open>checkTime\<close> is scheduled.\<close>

definition startRound :: "world \<Rightarrow> world" where
  "startRound w = (clearTimers (w\<lparr>gameState := WAITING\<rparr>))\<lparr>animFrameRef := True\<rparr>"

text \<open>The frame at which \<^verbatim>\<open>checkTime\<close> finds the random delay elapsed.\<close>

definition checkTime :: "rat \<Rightarrow> world \<Rightarrow> world" where
  "checkTime now w =
     (if animFrameRef w
      then w\<lparr>gameState := READY, greenTimeRef := now, animFrameRef := False\<rparr>
      else w)"

text \<open>The end of both branches of \<^verbatim>\<open>handleClick\<close>, on the captured \<^verbatim>\<open>currentRound\<close>.\<close>

definition nextRound :: "nat \<Rightarrow> world \<Rightarrow> world" where
  "nextRound capturedRound w =
     (if capturedRound \<ge> 5 then w\<lparr>gameState := FINISHED\<rparr>
      else startRound (w\<lparr>currentRound := currentRound w + 1\<rparr>))"

text \<open>The \<^verbatim>\<open>catch\<close> block of \<^verbatim>\<open>handleClick\<close>.\<close>

definition handleClick_catch :: "nat \<Rightarrow> int \<Rightarrow> world \<Rightarrow> world" where
  "handleClick_catch capturedRound rt w =
     nextRound capturedRound
       (w\<lparr>console := console w @ [TransactionFailed],
          results := results w @
            [\<lparr>attempt = capturedRound, reactionTime = rt, txTime = 0, totalTime = rt,
              failed = True\<rparr>]\<rparr>)"

text \<open>
  \<^verbatim>\<open>handleClick\<close> up to its \<^verbatim>\<open>await\<close>; \<open>now\<close> and \<open>txStart\<close> are its two readings of
  the clock.
\<close>

definition handleClick :: "address \<Rightarrow> rat \<Rightarrow> rat \<Rightarrow> world \<Rightarrow> world" where
  "handleClick acct now txStart w =
     (if \<not> isReady w then w
      else if gameState w = IDLE \<or> gameState w = FINISHED \<or> gameState w = TOO_EARLY then
        startRound (w\<lparr>currentRound := 1, results := []\<rparr>)
      else if gameState w = WAITING then
        (clearTimers w)\<lparr>gameState := TOO_EARLY, currentRound := 0, results := []\<rparr>
      else if gameState w = READY then
        (let rt = js_round (now - greenTimeRef w) - ADJUSTMENT;
             w1 = w\<lparr>clickTimeRef := now, gameState := CLICKED\<rparr>
         in case getNextTransaction acct w1 of
              Inl err \<Rightarrow> handleClick_catch (currentRound w) rt w1
            | Inr (signedTx, w2) \<Rightarrow>
                w2\<lparr>suspended := Some \<lparr>c_attempt = currentRound w, c_reactionTime = rt,
                                      c_txStart = txStart, c_signedTx = signedTx\<rparr>\<rparr>)
      else w)"

text \<open>
  The broadcast settles: \<open>Some t\<close> with the reading of the clock after the confirmation, or
  \<open>None\<close> when the request fails.
\<close>

definition broadcastSettled :: "rat option \<Rightarrow> world \<Rightarrow> world" where
  "broadcastSettled r w =
     (case suspended w of
        None \<Rightarrow> w
      | Some c \<Rightarrow>
          (let w1 = w\<lparr>suspended := None\<rparr>
           in case r of
                Some t \<Rightarrow>
                  (let tt = js_round (t - c_txStart c)
                   in nextRound (c_attempt c)
                        (w1\<lparr>results := results w1 @
                              [\<lparr>attempt = c_attempt c, reactionTime = c_reactionTime c,
                                txTime = tt, totalTime = c_reactionTime c + tt,
                                failed = False\<rparr>]\<rparr>))
              | None \<Rightarrow> handleClick_catch (c_attempt c) (c_reactionTime c) w1))"

definition getMessage :: "world \<Rightarrow> string" where
  "getMessage w =
     (if \<not> isReady w then ''INITIALIZING...''
      else case gameState w of
             IDLE \<Rightarrow> ''CLICK TO START''
           | WAITING \<Rightarrow> ''WAIT...''
           | READY \<Rightarrow> ''CLICK NOW!''
           | CLICKED \<Rightarrow> ''RECORDING...''
           | FINISHED \<Rightarrow> ''GAME COMPLETE!''
           | TOO_EARLY \<Rightarrow> ''TOO EARLY! CLICK TO RETRY'')"

subsection \<open>Runs\<close>

datatype event =
    Mount
  | QueriesSettled nat "(nat \<times> int) option"
  | EstimateSettled nat "int option"
  | BatchSettled nat "txData \<Rightarrow> hex option"
  | Frame rat
  | Click rat rat
  | BroadcastSettled "rat option"

fun step :: "address \<Rightarrow> event \<Rightarrow> world \<Rightarrow> world" where
  "step acct Mount w = mount w"
| "step acct (QueriesSettled k r) w = queriesSettled k r w"
| "step acct (EstimateSettled k r) w = estimateSettled acct k r w"
| "step acct (BatchSettled k sign) w = batchSettled k sign w"
| "step acct (Frame now) w = checkTime now w"
| "step acct (Click now txStart) w = handleClick acct now txStart w"
| "step acct (BroadcastSettled r) w = broadcastSettled r w"

fun run :: "address \<Rightarrow> event list \<Rightarrow> world \<Rightarrow> world" where
  "run acct [] w = w"
| "run acct (e # es) w = run acct es (step acct e w)"

text \<open>\<open>n\<close> calls of \<^verbatim>\<open>getNextTransaction\<close> in a row, up to the first that throws.\<close>

fun takeN :: "address \<Rightarrow> nat \<Rightarrow> world \<Rightarrow> error + (signedTransaction option list \<times> world)" where
  "takeN acct 0 w = Inr ([], w)"
| "takeN acct (Suc n) w =
     (case getNextTransaction acct w of
        Inl e \<Rightarrow> Inl e
      | Inr (tx, w1) \<Rightarrow>
          (case takeN acct n w1 of
             Inl e \<Rightarrow> Inl e
           | Inr (txs, w2) \<Rightarrow> Inr (tx # txs, w2)))"

subsection \<open>Reading a payload back\<close>



subsection \<open>Notions used in the statements\<close>

text \<open>A signed entry: the transaction with the signature the signer gave for it.\<close>

definition sealed :: "(txData \<Rightarrow> hex option) \<Rightarrow> txData \<Rightarrow> signedTransaction" where
  "sealed sign t = \<lparr>payload = t, signature = the (sign t)\<rparr>"

text \<open>
  The promise a refill starts in the world \<open>w\<close>: what \<^verbatim>\<open>preSignBatch(nextNonce, 10)\<close>
  dispatches when \<^verbatim>\<open>nextNonce\<close> is \<^verbatim>\<open>pool.baseNonce + pool.transactions.length\<close>.
\<close>

definition trigger :: "address \<Rightarrow> world \<Rightarrow> promise list" where
  "trigger acct w = [\<lparr>job = SignBatch
            (map (txDataFor acct (gasPrice w) (gasLimit w)
                   (baseNonce (preSignedPool w) + length (transactions (preSignedPool w))))
               [0..<10]) RefillCont,
          state = Pending\<rparr>]"

fun isRefill :: "promise \<Rightarrow> bool" where
  "isRefill p = (case job p of SignBatch txs RefillCont \<Rightarrow> True | _ \<Rightarrow> False)"

text \<open>The refills started so far, in the order of their start.\<close>

definition refills :: "world \<Rightarrow> promise list" where
  "refills w = filter isRefill (promises w)"

text \<open>A refill is in flight: one of the refills started so far is still pending.\<close>

definition refillInFlight :: "world \<Rightarrow> bool" where
  "refillInFlight w \<longleftrightarrow> (\<exists>p \<in> set (refills w). state p = Pending)"

definition poolBounded :: "world \<Rightarrow> bool" where
  "poolBounded w \<longleftrightarrow> currentIndex (preSignedPool w) \<le> length (transactions (preSignedPool w))"

text \<open>A promise keeps its job, and its state once it is settled.\<close>

definition extends :: "promise list \<Rightarrow> promise list \<Rightarrow> bool" where
  "extends ps qs \<longleftrightarrow> length ps \<le> length qs
     \<and> (\<forall>k<length ps. job (qs ! k) = job (ps ! k)
           \<and> (state (qs ! k) = state (ps ! k) \<or> state (ps ! k) = Pending))"

text \<open>An entry that a fulfilled signing batch of the promise table has produced.\<close>

definition signedEntry :: "world \<Rightarrow> signedTransaction \<Rightarrow> bool" where
  "signedEntry w e \<longleftrightarrow>
     (\<exists>k txs c. k < length (promises w) \<and> job (promises w ! k) = SignBatch txs c
        \<and> state (promises w ! k) = Fulfilled \<and> payload e \<in> set txs)"

definition allSigned :: "world \<Rightarrow> bool" where
  "allSigned w \<longleftrightarrow> (\<forall>e \<in> set (transactions (preSignedPool w)). signedEntry w e)"

text \<open>
  The world after the page has been entered once and \<^verbatim>\<open>init\<close> has run to its end: the
  queries gave the transaction count \<open>N\<close> and the gas price, the estimate gave the gas
  limit, and \<open>sign\<close> signed the initial batch.
\<close>

definition primedWorld ::
  "address \<Rightarrow> nat \<Rightarrow> int \<Rightarrow> int \<Rightarrow> (txData \<Rightarrow> hex option) \<Rightarrow> world" where
  "primedWorld acct N gas gl sign =
     run acct [Mount, QueriesSettled 0 (Some (N, gas)), EstimateSettled 1 (Some gl),
               BatchSettled 2 sign] initialWorld"

text \<open>A signer that never fails, a signer that always fails, and a primed world.\<close>

definition demoSigner :: "txData \<Rightarrow> hex option" where
  "demoSigner t = Some ''c0ffee''"

definition failingSigner :: "txData \<Rightarrow> hex option" where
  "failingSigner t = None"

definition demoWorld :: world where
  "demoWorld = primedWorld ''0xA'' 100 7 21000 demoSigner"

subsection \<open>Who owns a promise\<close>

text \<open>The component instance whose \<^verbatim>\<open>init\<close> a promise belongs to; a refill belongs to none.\<close>

fun owner :: "job \<Rightarrow> nat option" where
  "owner (Queries m) = Some m"
| "owner (EstimateGas m n) = Some m"
| "owner (SignBatch txs (InitCont m)) = Some m"
| "owner (SignBatch txs RefillCont) = None"

text \<open>Promise \<open>k\<close> is pending and belongs to the \<^verbatim>\<open>init\<close> of the mounted instance.\<close>

definition ownPendingAt :: "world \<Rightarrow> nat \<Rightarrow> bool" where
  "ownPendingAt w k \<longleftrightarrow> k < length (promises w) \<and> state (promises w ! k) = Pending
     \<and> owner (job (promises w ! k)) = Some (mountId w)"

text \<open>
  The mounted instance has at most one pending promise of its \<^verbatim>\<open>init\<close>, none once it
  is ready, and no promise belongs to an instance that is not mounted yet.
\<close>

definition initInv :: "world \<Rightarrow> bool" where
  "initInv w \<longleftrightarrow>
     (\<forall>i j. ownPendingAt w i \<and> ownPendingAt w j \<longrightarrow> i = j)
   \<and> (isReady w \<longrightarrow> (\<forall>i. \<not> ownPendingAt w i))
   \<and> (\<forall>i<length (promises w). \<forall>m. owner (job (promises w ! i)) = Some m \<longrightarrow> m \<le> mountId w)"

definition ownersBounded :: "world \<Rightarrow> bool" where
  "ownersBounded w \<longleftrightarrow>
     (\<forall>i<length (promises w). \<forall>m. owner (job (promises w ! i)) = Some m \<longrightarrow> m \<le> mountId w)"

text \<open>Not ready, with nothing of \<^verbatim>\<open>init\<close> pending that could make it ready.\<close>

definition notReady :: "world \<Rightarrow> bool" where
  "notReady w \<longleftrightarrow> \<not> isReady w \<and> (\<forall>i. \<not> ownPendingAt w i)"

text \<open>
  The event \<open>e\<close> is a failure of the promise \<open>i\<close> with the given job of an \<^verbatim>\<open>init\<close>:
  a start-up query, the gas estimate or a signing of the initial batch fails.
\<close>

fun initFailure :: "event \<Rightarrow> nat \<Rightarrow> job \<Rightarrow> bool" where
  "initFailure (QueriesSettled k None) i (Queries m) = (k = i)"
| "initFailure (EstimateSettled k None) i (EstimateGas m n) = (k = i)"
| "initFailure (BatchSettled k sign) i (SignBatch txs (InitCont m)) =
     (k = i \<and> (\<exists>t \<in> set txs. sign t = None))"
| "initFailure e i j = False"

text \<open>What a step other than a mount does to the promise table and to readiness.\<close>

definition evolves :: "world \<Rightarrow> world \<Rightarrow> bool" where
  "evolves w w' \<longleftrightarrow> mountId w' = mountId w \<and>
     ((\<exists>qs. promises w' = promises w @ qs \<and> (\<forall>q \<in> set qs. owner (job q) = None)
          \<and> isReady w' = isReady w)
    \<or> (\<exists>k st qs. k < length (promises w) \<and> state (promises w ! k) = Pending \<and> st \<noteq> Pending
          \<and> promises w' = (promises w)[k := (promises w ! k)\<lparr>state := st\<rparr>] @ qs
          \<and> (\<forall>q \<in> set qs. owner (job q) = owner (job (promises w ! k)))
          \<and> length qs \<le> 1
          \<and> (isReady w' = isReady w
              \<or> (qs = [] \<and> owner (job (promises w ! k)) = Some (mountId w)))))"

subsection \<open>The refills in the promise table\<close>

definition refillAt :: "world \<Rightarrow> nat \<Rightarrow> bool" where
  "refillAt w i \<longleftrightarrow> i < length (promises w) \<and> isRefill (promises w ! i)"

text \<open>The sequence numbers and the size of the batch a promise signs.\<close>

fun nonces :: "promise \<Rightarrow> nat set" where
  "nonces p = (case job p of SignBatch txs c \<Rightarrow> tx_nonce ` set txs | _ \<Rightarrow> {})"

fun batchSize :: "promise \<Rightarrow> nat" where
  "batchSize p = (case job p of SignBatch txs c \<Rightarrow> length txs | _ \<Rightarrow> 0)"

declare nonces.simps [simp del] batchSize.simps [simp del]

text \<open>The sequence number a refill triggered now would start at.\<close>

definition frontier :: "world \<Rightarrow> nat" where
  "frontier w = baseNonce (preSignedPool w) + length (transactions (preSignedPool w))"

text \<open>
  The four things a step can do to the refills: nothing (the buffer may grow by an initial
  batch), start one, fulfil the pending one, reject the pending one.
\<close>

definition quietStep :: "world \<Rightarrow> world \<Rightarrow> bool" where
  "quietStep w w' \<longleftrightarrow>
     hasTriggeredRefill (preSignedPool w') = hasTriggeredRefill (preSignedPool w)
   \<and> (\<exists>xs. transactions (preSignedPool w') = transactions (preSignedPool w) @ xs)
   \<and> length (promises w) \<le> length (promises w')
   \<and> (\<forall>i<length (promises w). isRefill (promises w ! i) \<longrightarrow> promises w' ! i = promises w ! i)
   \<and> (\<forall>i<length (promises w'). isRefill (promises w' ! i) \<longrightarrow>
         i < length (promises w) \<and> isRefill (promises w ! i))"

definition triggerStep :: "address \<Rightarrow> world \<Rightarrow> world \<Rightarrow> bool" where
  "triggerStep acct w w' \<longleftrightarrow>
     \<not> hasTriggeredRefill (preSignedPool w) \<and> hasTriggeredRefill (preSignedPool w')
   \<and> promises w' = promises w @ trigger acct w
   \<and> transactions (preSignedPool w') = transactions (preSignedPool w)
   \<and> baseNonce (preSignedPool w') = baseNonce (preSignedPool w)"

definition fulfilStep :: "world \<Rightarrow> world \<Rightarrow> bool" where
  "fulfilStep w w' \<longleftrightarrow>
     (\<exists>k txs xs. k < length (promises w) \<and> job (promises w ! k) = SignBatch txs RefillCont
        \<and> state (promises w ! k) = Pending
        \<and> promises w' = (promises w)[k := (promises w ! k)\<lparr>state := Fulfilled\<rparr>]
        \<and> transactions (preSignedPool w') = transactions (preSignedPool w) @ xs
        \<and> length xs = length txs
        \<and> \<not> hasTriggeredRefill (preSignedPool w')
        \<and> baseNonce (preSignedPool w') = baseNonce (preSignedPool w))"

definition rejectStep :: "world \<Rightarrow> world \<Rightarrow> bool" where
  "rejectStep w w' \<longleftrightarrow>
     (\<exists>k txs. k < length (promises w) \<and> job (promises w ! k) = SignBatch txs RefillCont
        \<and> state (promises w ! k) = Pending
        \<and> promises w' = (promises w)[k := (promises w ! k)\<lparr>state := Rejected\<rparr>]
        \<and> preSignedPool w' = preSignedPool w)"

definition refillStep :: "address \<Rightarrow> world \<Rightarrow> world \<Rightarrow> bool" where
  "refillStep acct w w' \<longleftrightarrow>
     quietStep w w' \<or> triggerStep acct w w' \<or> fulfilStep w w' \<or> rejectStep w w'"

text \<open>
  While the guard is clear every refill is fulfilled, and at most one refill is not
  fulfilled.
\<close>

definition guardInv :: "world \<Rightarrow> bool" where
  "guardInv w \<longleftrightarrow>
     (\<not> hasTriggeredRefill (preSignedPool w) \<longrightarrow>
        (\<forall>i. refillAt w i \<longrightarrow> state (promises w ! i) = Fulfilled))
   \<and> (\<forall>i j. refillAt w i \<and> refillAt w j \<and> state (promises w ! i) \<noteq> Fulfilled
         \<and> state (promises w ! j) \<noteq> Fulfilled \<longrightarrow> i = j)"

text \<open>
  Every refill is a batch of ten, below the frontier once it is fulfilled and within the
  next ten sequence numbers before; two refills share no sequence number.
\<close>

definition rangeInv :: "world \<Rightarrow> bool" where
  "rangeInv w \<longleftrightarrow>
     (\<forall>i. refillAt w i \<longrightarrow> batchSize (promises w ! i) = 10
        \<and> (\<forall>n \<in> nonces (promises w ! i).
              n < frontier w + (if state (promises w ! i) = Fulfilled then 0 else 10)))
   \<and> (\<forall>i j. refillAt w i \<and> refillAt w j \<and> i \<noteq> j \<longrightarrow>
         nonces (promises w ! i) \<inter> nonces (promises w ! j) = {})"

text \<open>The guard is set and no refill is pending: nothing can clear the guard any more.\<close>

definition stuck :: "world \<Rightarrow> bool" where
  "stuck w \<longleftrightarrow> hasTriggeredRefill (preSignedPool w)
     \<and> (\<forall>i. refillAt w i \<longrightarrow> state (promises w ! i) \<noteq> Pending)"

text \<open>Along the run, no step lowers \<^verbatim>\<open>baseNonce\<close>.\<close>

fun baseMonotone :: "address \<Rightarrow> event list \<Rightarrow> world \<Rightarrow> bool" where
  "baseMonotone acct [] w = True"
| "baseMonotone acct (e # es) w =
     (baseNonce (preSignedPool w) \<le> baseNonce (preSignedPool (step acct e w))
      \<and> baseMonotone acct es (step acct e w))"

subsection \<open>Concrete runs\<close>

text \<open>
  One round played to its confirmation, and one game of five rounds, started by a click.
\<close>

definition oneRound :: "event list" where
  "oneRound = [Frame 1000, Click 1250 1251, BroadcastSettled (Some 1260)]"

definition oneGame :: "event list" where
  "oneGame = Click 0 0 # oneRound @ oneRound @ oneRound @ oneRound @ oneRound"

text \<open>The run to the primed world \<open>demoWorld\<close>.\<close>

definition primeTrace :: "event list" where
  "primeTrace = [Mount, QueriesSettled 0 (Some (100, 7)), EstimateSettled 1 (Some 21000),
     BatchSettled 2 demoSigner]"

text \<open>Two games, the refill of the first fulfilled before the second.\<close>

definition twoRefillTrace :: "event list" where
  "twoRefillTrace = primeTrace @ oneGame @ [BatchSettled 3 demoSigner] @ oneGame"

text \<open>A game started and played up to its fifth round.\<close>

definition fourRounds :: "event list" where
  "fourRounds = Click 0 0 # oneRound @ oneRound @ oneRound @ oneRound"

text \<open>
  One game, a signing of its refill failing, and a second game up to its fifth round.
\<close>

definition stuckTrace :: "event list" where
  "stuckTrace = primeTrace @ oneGame @ [BatchSettled 3 failingSigner] @ fourRounds"

text \<open>
  The page is entered twice in a row. The queries of the second \<^verbatim>\<open>init\<close> resolve first,
  with the transaction count 100; those of the first resolve after one game and its refill,
  with the count 90 they had read before.
\<close>

definition overlapTrace :: "event list" where
  "overlapTrace =
     [Mount, Mount, QueriesSettled 1 (Some (100, 7)), EstimateSettled 2 (Some 21000),
      BatchSettled 3 demoSigner]
     @ oneGame @ [BatchSettled 4 demoSigner, QueriesSettled 0 (Some (90, 7))] @ oneGame"

text \<open>The page is entered, left and entered again, the transaction count unchanged.\<close>

definition reinitTrace :: "event list" where
  "reinitTrace = primeTrace @ [Mount, QueriesSettled 3 (Some (100, 7)),
     EstimateSettled 4 (Some 21000), BatchSettled 5 demoSigner]"

text \<open>Worlds along these runs.\<close>

definition mountedWorld :: world where
  "mountedWorld = run ''0xA'' [Mount] initialWorld"

definition estimatedWorld :: world where
  "estimatedWorld = run ''0xA'' [Mount, QueriesSettled 0 (Some (100, 7)),
     EstimateSettled 1 (Some 21000)] initialWorld"

definition readyWorld :: world where
  "readyWorld = run ''0xA'' [Click 0 0, Frame 1000] demoWorld"

definition lowWorld :: world where
  "lowWorld = demoWorld\<lparr>preSignedPool := (preSignedPool demoWorld)\<lparr>currentIndex := 4\<rparr>\<rparr>"





section \<open>Properties\<close>

subsection \<open>Hexadecimal payloads\<close>










subsection \<open>Settling a batch\<close>

lemma promiseAll_map:
  "(\<forall>x \<in> set xs. f x \<noteq> None) \<Longrightarrow> promiseAll (map f xs) = Some (map (\<lambda>x. the (f x)) xs)"
  by (induction xs) auto

lemma promiseAll_None: "None \<in> set rs \<Longrightarrow> promiseAll rs = None"
  by (induction rs rule: promiseAll.induct) auto

lemma promiseAll_Some_length: "promiseAll rs = Some xs \<Longrightarrow> length xs = length rs"
  by (induction rs arbitrary: xs rule: promiseAll.induct) auto


lemma preSignedPool_preSignBatch [simp]:
  "preSignedPool (preSignBatch acct s n c w) = preSignedPool w"
  by (simp add: preSignBatch_def)

lemma signTransaction_sealed:
  assumes "\<forall>t \<in> set txs. sign t \<noteq> None"
  shows "promiseAll (map (signTransaction sign) txs) = Some (map (sealed sign) txs)"
proof -
  from assms have "\<forall>t \<in> set txs. signTransaction sign t \<noteq> None"
    by (simp add: signTransaction_def)
  then have "promiseAll (map (signTransaction sign) txs)
      = Some (map (\<lambda>t. the (signTransaction sign t)) txs)"
    by (rule promiseAll_map)
  moreover have "map (\<lambda>t. the (signTransaction sign t)) txs = map (sealed sign) txs"
    using assms by (auto simp: signTransaction_def sealed_def)
  ultimately show ?thesis by simp
qed

lemma batchSettled_ok:
  assumes "k < length (promises w)" and "state (promises w ! k) = Pending"
    and "job (promises w ! k) = SignBatch txs c" and "\<forall>t \<in> set txs. sign t \<noteq> None"
  shows "batchSettled k sign w =
    (let w1 = preSignBatch_resume (map (sealed sign) txs) (length txs) (settle k Fulfilled w)
     in case c of
          RefillCont \<Rightarrow> w1\<lparr>preSignedPool := (preSignedPool w1)\<lparr>hasTriggeredRefill := False\<rparr>\<rparr>
        | InitCont m \<Rightarrow> setIsReady m True w1)"
  using assms by (simp add: batchSettled_def signTransaction_sealed)

lemma batchSettled_failed:
  assumes "k < length (promises w)" and "state (promises w ! k) = Pending"
    and "job (promises w ! k) = SignBatch txs c" and "\<exists>t \<in> set txs. sign t = None"
  shows "batchSettled k sign w =
    (let w1 = settle k Rejected w
     in case c of
          RefillCont \<Rightarrow> w1
        | InitCont m \<Rightarrow> w1\<lparr>console := console w1 @ [FailedToInitialize]\<rparr>)"
proof -
  from assms(4) have "None \<in> set (map (signTransaction sign) txs)"
    by (force simp: signTransaction_def)
  then have "promiseAll (map (signTransaction sign) txs) = None"
    by (rule promiseAll_None)
  with assms(1-3) show ?thesis by (simp add: batchSettled_def)
qed

lemma batchSettled_cases:
  obtains (none) "batchSettled k sign w = w"
  | (ok) txs c where "k < length (promises w)" "state (promises w ! k) = Pending"
      "job (promises w ! k) = SignBatch txs c" "\<forall>t \<in> set txs. sign t \<noteq> None"
  | (failed) txs c where "k < length (promises w)" "state (promises w ! k) = Pending"
      "job (promises w ! k) = SignBatch txs c" "\<exists>t \<in> set txs. sign t = None"
proof (cases "k < length (promises w) \<and> state (promises w ! k) = Pending")
  case False
  then have "batchSettled k sign w = w" by (auto simp: batchSettled_def)
  then show ?thesis by (rule none)
next
  case True
  show ?thesis
  proof (cases "job (promises w ! k)")
    case (SignBatch txs c)
    show ?thesis
    proof (cases "\<forall>t \<in> set txs. sign t \<noteq> None")
      case all: True
      with True SignBatch show ?thesis by (intro ok [of txs c]) simp_all
    next
      case False
      with True SignBatch show ?thesis by (intro failed [of txs c]) simp_all
    qed
  next
    case (Queries m)
    with True have "batchSettled k sign w = w" by (simp add: batchSettled_def)
    then show ?thesis by (rule none)
  next
    case (EstimateGas m n)
    with True have "batchSettled k sign w = w" by (simp add: batchSettled_def)
    then show ?thesis by (rule none)
  qed
qed


subsection \<open>The batch signer\<close>



subsection \<open>The effect of a take\<close>

lemma getNextTransaction_Inl:
  "getNextTransaction acct w = Inl e
     \<longleftrightarrow> length (transactions (preSignedPool w)) \<le> currentIndex (preSignedPool w)"
  by (cases e) (simp add: getNextTransaction_def Let_def)

lemma getNextTransaction_Inr:
  assumes "getNextTransaction acct w = Inr (tx, w')"
  shows "currentIndex (preSignedPool w) < length (transactions (preSignedPool w))"
    and "tx = Some (transactions (preSignedPool w) ! currentIndex (preSignedPool w))"
    and "transactions (preSignedPool w') = transactions (preSignedPool w)"
    and "currentIndex (preSignedPool w') = currentIndex (preSignedPool w) + 1"
    and "baseNonce (preSignedPool w') = baseNonce (preSignedPool w)"
    and "hasTriggeredRefill (preSignedPool w')
          = (hasTriggeredRefill (preSignedPool w) \<or> (currentIndex (preSignedPool w) + 1) mod 5 = 0)"
    and "promises w' = promises w @
          (if (currentIndex (preSignedPool w) + 1) mod 5 = 0 \<and> \<not> hasTriggeredRefill (preSignedPool w)
           then trigger acct w else [])"
    and "gasPrice w' = gasPrice w" and "gasLimit w' = gasLimit w"
  using assms
  by (auto simp: getNextTransaction_def Let_def element_def preSignBatch_def trigger_def
      split: if_splits)

lemma getNextTransaction_ui:
  assumes "getNextTransaction acct w = Inr (tx, w')"
  shows "isReady w' = isReady w" and "mountId w' = mountId w" and "gameState w' = gameState w"
    and "currentRound w' = currentRound w" and "results w' = results w"
    and "suspended w' = suspended w" and "animFrameRef w' = animFrameRef w"
    and "greenTimeRef w' = greenTimeRef w" and "clickTimeRef w' = clickTimeRef w"
  using assms
  by (auto simp: getNextTransaction_def Let_def preSignBatch_def split: if_splits)

lemma getNextTransaction_succeeds:
  assumes "currentIndex (preSignedPool w) < length (transactions (preSignedPool w))"
  shows "\<exists>w'. getNextTransaction acct w
     = Inr (Some (transactions (preSignedPool w) ! currentIndex (preSignedPool w)), w')"
  using assms by (simp add: getNextTransaction_def Let_def element_def)

lemma takeN_drains:
  assumes "currentIndex (preSignedPool w) + n = length (transactions (preSignedPool w))"
  shows "\<exists>w'. takeN acct n w
       = Inr (map Some (drop (currentIndex (preSignedPool w)) (transactions (preSignedPool w))), w')
     \<and> transactions (preSignedPool w') = transactions (preSignedPool w)
     \<and> currentIndex (preSignedPool w') = length (transactions (preSignedPool w))"
  using assms
proof (induction n arbitrary: w)
  case 0
  then show ?case by simp
next
  case (Suc n)
  let ?p = "preSignedPool w"
  from Suc.prems have lt: "currentIndex ?p < length (transactions ?p)" by simp
  then obtain w1 where g: "getNextTransaction acct w = Inr (Some (transactions ?p ! currentIndex ?p), w1)"
    using getNextTransaction_succeeds by blast
  note e = getNextTransaction_Inr [OF g]
  from Suc.prems e have "currentIndex (preSignedPool w1) + n = length (transactions (preSignedPool w1))"
    by simp
  from Suc.IH [OF this] obtain w2 where
    t: "takeN acct n w1 = Inr (map Some (drop (currentIndex (preSignedPool w1)) (transactions (preSignedPool w1))), w2)"
    and t2: "transactions (preSignedPool w2) = transactions (preSignedPool w1)"
    and t3: "currentIndex (preSignedPool w2) = length (transactions (preSignedPool w1))"
    by blast
  from lt have "drop (currentIndex ?p) (transactions ?p)
      = transactions ?p ! currentIndex ?p # drop (Suc (currentIndex ?p)) (transactions ?p)"
    by (simp add: Cons_nth_drop_Suc)
  with g t t2 t3 e show ?case by simp
qed

subsection \<open>The effect of the steps on the pool\<close>

lemma pool_startRound [simp]: "preSignedPool (startRound w) = preSignedPool w"
  and promises_startRound [simp]: "promises (startRound w) = promises w"
  by (simp_all add: startRound_def clearTimers_def)

lemma pool_nextRound [simp]: "preSignedPool (nextRound r w) = preSignedPool w"
  and promises_nextRound [simp]: "promises (nextRound r w) = promises w"
  by (simp_all add: nextRound_def)

lemma pool_handleClick_catch [simp]: "preSignedPool (handleClick_catch r t w) = preSignedPool w"
  and promises_handleClick_catch [simp]: "promises (handleClick_catch r t w) = promises w"
  by (simp_all add: handleClick_catch_def)

lemma pool_mount [simp]: "preSignedPool (mount w) = preSignedPool w"
  by (simp add: mount_def)

lemma pool_checkTime [simp]: "preSignedPool (checkTime now w) = preSignedPool w"
  and promises_checkTime [simp]: "promises (checkTime now w) = promises w"
  by (simp_all add: checkTime_def)

lemma pool_broadcastSettled [simp]: "preSignedPool (broadcastSettled r w) = preSignedPool w"
  and promises_broadcastSettled [simp]: "promises (broadcastSettled r w) = promises w"
  by (simp_all add: broadcastSettled_def Let_def split: option.splits)

lemma pool_estimateSettled [simp]: "preSignedPool (estimateSettled acct k r w) = preSignedPool w"
  by (simp add: estimateSettled_def settle_def preSignBatch_def Let_def
      split: job.splits option.splits)

lemma pool_queriesSettled:
  "transactions (preSignedPool (queriesSettled k r w)) = transactions (preSignedPool w)"
  "currentIndex (preSignedPool (queriesSettled k r w)) = currentIndex (preSignedPool w)"
  "hasTriggeredRefill (preSignedPool (queriesSettled k r w)) = hasTriggeredRefill (preSignedPool w)"
  by (simp_all add: queriesSettled_def settle_def Let_def split: job.splits option.splits)

lemma pool_batchSettled:
  "currentIndex (preSignedPool (batchSettled k sign w)) = currentIndex (preSignedPool w)"
  "baseNonce (preSignedPool (batchSettled k sign w)) = baseNonce (preSignedPool w)"
  "\<exists>new. transactions (preSignedPool (batchSettled k sign w)) = transactions (preSignedPool w) @ new"
  by (simp_all add: batchSettled_def settle_def preSignBatch_resume_def setIsReady_def Let_def
      split: job.splits option.splits continuation.splits)

lemma handleClick_pool_cases:
  obtains (same) "preSignedPool (handleClick acct now txStart w) = preSignedPool w"
      "promises (handleClick acct now txStart w) = promises w"
  | (take) tx w1 w2 where "preSignedPool w1 = preSignedPool w" "promises w1 = promises w"
      "gasPrice w1 = gasPrice w" "gasLimit w1 = gasLimit w"
      "getNextTransaction acct w1 = Inr (tx, w2)"
      "preSignedPool (handleClick acct now txStart w) = preSignedPool w2"
      "promises (handleClick acct now txStart w) = promises w2"
proof (cases "isReady w \<and> gameState w = READY")
  case False
  then have "preSignedPool (handleClick acct now txStart w) = preSignedPool w"
    "promises (handleClick acct now txStart w) = promises w"
    by (auto simp: handleClick_def clearTimers_def)
  then show ?thesis by (rule same)
next
  case True
  let ?w1 = "w\<lparr>clickTimeRef := now, gameState := CLICKED\<rparr>"
  show ?thesis
  proof (cases "getNextTransaction acct ?w1")
    case (Inl e)
    with True have "preSignedPool (handleClick acct now txStart w) = preSignedPool w"
      "promises (handleClick acct now txStart w) = promises w"
      by (simp_all add: handleClick_def Let_def)
    then show ?thesis by (rule same)
  next
    case (Inr r)
    obtain tx w2 where r: "r = (tx, w2)" by (cases r)
    with Inr True have "preSignedPool (handleClick acct now txStart w) = preSignedPool w2"
      "promises (handleClick acct now txStart w) = promises w2"
      by (simp_all add: handleClick_def Let_def)
    with Inr r show ?thesis by (intro take [of ?w1 tx w2]) simp_all
  qed
qed

lemma poolBounded_step: "poolBounded w \<Longrightarrow> poolBounded (step acct e w)"
proof (cases e)
  case (BatchSettled k sign)
  assume "poolBounded w"
  with BatchSettled pool_batchSettled(3) [of k sign w] show ?thesis
    by (auto simp: poolBounded_def pool_batchSettled(1))
next
  case (Click now txStart)
  assume b: "poolBounded w"
  show ?thesis
  proof (cases rule: handleClick_pool_cases [of acct now txStart w])
    case same
    with b Click show ?thesis by (simp add: poolBounded_def)
  next
    case (take tx w1 w2)
    with b Click getNextTransaction_Inr [OF take(5)] show ?thesis
      by (simp add: poolBounded_def)
  qed
qed (simp_all add: poolBounded_def pool_queriesSettled)

lemma poolBounded_run: "poolBounded w \<Longrightarrow> poolBounded (run acct evs w)"
  by (induction evs arbitrary: w) (simp_all add: poolBounded_step)

lemma poolBounded_initial: "poolBounded initialWorld"
  by (simp add: poolBounded_def initialWorld_def)

subsection \<open>The primed world\<close>

lemma primedWorld_eq:
  assumes "\<forall>t. sign t \<noteq> None"
  shows "primedWorld acct N gas gl sign =
     \<lparr>preSignedPool =
        \<lparr>transactions = map (\<lambda>i. sealed sign (txDataFor acct gas gl N i)) [0..<10],
         currentIndex = 0, baseNonce = N, hasTriggeredRefill = False\<rparr>,
      gasPrice = gas, gasLimit = gl, mountId = 1,
      gameState = IDLE, currentRound = 0, results = [], isReady = True,
      greenTimeRef = 0, clickTimeRef = 0, animFrameRef = False,
      promises = [\<lparr>job = Queries 1, state = Fulfilled\<rparr>,
                  \<lparr>job = EstimateGas 1 N, state = Fulfilled\<rparr>,
                  \<lparr>job = SignBatch (map (txDataFor acct gas gl N) [0..<10]) (InitCont 1),
                    state = Fulfilled\<rparr>],
      suspended = None,
      console = [GasEstimated gl, PreSigned 10 10]\<rparr>"
proof -
  let ?w3 = "run acct [Mount, QueriesSettled 0 (Some (N, gas)), EstimateSettled 1 (Some gl)] initialWorld"
  have w3: "?w3 = \<lparr>preSignedPool =
        \<lparr>transactions = [], currentIndex = 0, baseNonce = N, hasTriggeredRefill = False\<rparr>,
      gasPrice = gas, gasLimit = gl, mountId = 1,
      gameState = IDLE, currentRound = 0, results = [], isReady = False,
      greenTimeRef = 0, clickTimeRef = 0, animFrameRef = False,
      promises = [\<lparr>job = Queries 1, state = Fulfilled\<rparr>,
                  \<lparr>job = EstimateGas 1 N, state = Fulfilled\<rparr>,
                  \<lparr>job = SignBatch (map (txDataFor acct gas gl N) [0..<10]) (InitCont 1),
                    state = Pending\<rparr>],
      suspended = None,
      console = [GasEstimated gl]\<rparr>"
    by (simp add: initialWorld_def mount_def queriesSettled_def estimateSettled_def settle_def
        preSignBatch_def Let_def)
  have "primedWorld acct N gas gl sign = batchSettled 2 sign ?w3"
    by (simp add: primedWorld_def)
  also have "\<dots> = batchSettled 2 sign \<lparr>preSignedPool =
        \<lparr>transactions = [], currentIndex = 0, baseNonce = N, hasTriggeredRefill = False\<rparr>,
      gasPrice = gas, gasLimit = gl, mountId = 1,
      gameState = IDLE, currentRound = 0, results = [], isReady = False,
      greenTimeRef = 0, clickTimeRef = 0, animFrameRef = False,
      promises = [\<lparr>job = Queries 1, state = Fulfilled\<rparr>,
                  \<lparr>job = EstimateGas 1 N, state = Fulfilled\<rparr>,
                  \<lparr>job = SignBatch (map (txDataFor acct gas gl N) [0..<10]) (InitCont 1),
                    state = Pending\<rparr>],
      suspended = None,
      console = [GasEstimated gl]\<rparr>"
    by (simp only: w3)
  finally show ?thesis
    using assms
    by (subst (asm) batchSettled_ok [where txs = "map (txDataFor acct gas gl N) [0..<10]" and c = "InitCont 1"])
       (simp_all add: settle_def preSignBatch_resume_def setIsReady_def Let_def del: upt.simps)
qed

subsection \<open>The promise table along a run\<close>

lemma extends_refl [simp]: "extends ps ps"
  by (simp add: extends_def)

lemma extends_trans: "extends ps qs \<Longrightarrow> extends qs rs \<Longrightarrow> extends ps rs"
  unfolding extends_def
  by (metis (no_types, lifting) le_trans less_le_trans)

lemma extends_append [simp]: "extends ps (ps @ qs)"
  by (simp add: extends_def nth_append)

lemma extends_settle:
  "state (ps ! k) = Pending \<Longrightarrow> extends ps (ps[k := (ps ! k)\<lparr>state := st\<rparr>] @ qs)"
  by (cases "k < length ps") (auto simp: extends_def nth_append nth_list_update)

lemma extends_mount: "extends (promises w) (promises (mount w))"
  by (simp add: mount_def)

lemma extends_queriesSettled: "extends (promises w) (promises (queriesSettled k r w))"
  using extends_settle [of "promises w" k _ "[]"] extends_settle [of "promises w" k]
  by (auto simp: queriesSettled_def settle_def Let_def split: job.splits option.splits)

lemma extends_estimateSettled: "extends (promises w) (promises (estimateSettled acct k r w))"
  using extends_settle [of "promises w" k _ "[]"] extends_settle [of "promises w" k]
  by (auto simp: estimateSettled_def settle_def preSignBatch_def Let_def
      split: job.splits option.splits)

lemma extends_batchSettled: "extends (promises w) (promises (batchSettled k sign w))"
  using extends_settle [of "promises w" k _ "[]"]
  by (auto simp: batchSettled_def settle_def preSignBatch_resume_def setIsReady_def Let_def
      split: job.splits option.splits continuation.splits)

lemma extends_handleClick: "extends (promises w) (promises (handleClick acct now txStart w))"
proof (cases rule: handleClick_pool_cases [of acct now txStart w])
  case same
  then show ?thesis by simp
next
  case (take tx w1 w2)
  with getNextTransaction_Inr(7) [OF take(5)] show ?thesis by simp
qed

lemma extends_step: "extends (promises w) (promises (step acct e w))"
  by (cases e)
     (simp_all add: extends_mount extends_queriesSettled extends_estimateSettled
       extends_batchSettled extends_handleClick)

lemma extends_run: "extends (promises w) (promises (run acct evs w))"
proof (induction evs arbitrary: w)
  case Nil
  show ?case by simp
next
  case (Cons e evs)
  from extends_step [of w acct e] Cons [of "step acct e w"] show ?case
    by (simp add: extends_trans)
qed

lemma job_run:
  "k < length (promises w) \<Longrightarrow> job (promises (run acct evs w) ! k) = job (promises w ! k)"
  using extends_run [of w acct evs] by (simp add: extends_def)

subsection \<open>Every entry is a signed one\<close>

lemma signedEntry_extends:
  assumes "signedEntry w e" and "extends (promises w) (promises w')"
  shows "signedEntry w' e"
proof -
  from assms(1) obtain k txs c where k: "k < length (promises w)"
    and j: "job (promises w ! k) = SignBatch txs c"
    and s: "state (promises w ! k) = Fulfilled" and m: "payload e \<in> set txs"
    by (auto simp: signedEntry_def)
  from assms(2) k j s have "k < length (promises w')" "job (promises w' ! k) = SignBatch txs c"
    "state (promises w' ! k) = Fulfilled"
    by (auto simp: extends_def)
  with m show ?thesis by (auto simp: signedEntry_def)
qed

lemma allSigned_same:
  assumes "allSigned w" and "transactions (preSignedPool w') = transactions (preSignedPool w)"
    and "extends (promises w) (promises w')"
  shows "allSigned w'"
  using assms by (auto simp: allSigned_def intro: signedEntry_extends)

lemma allSigned_batchSettled:
  assumes "allSigned w"
  shows "allSigned (batchSettled k sign w)"
proof (cases rule: batchSettled_cases [of k sign w])
  case none
  with assms show ?thesis by simp
next
  case (failed txs c)
  from batchSettled_failed [OF failed]
  have "transactions (preSignedPool (batchSettled k sign w)) = transactions (preSignedPool w)"
    by (cases c) (simp_all add: settle_def Let_def)
  with assms extends_batchSettled [of w k sign] show ?thesis
    by (auto intro: allSigned_same)
next
  case (ok txs c)
  let ?w' = "batchSettled k sign w"
  from batchSettled_ok [OF ok]
  have t: "transactions (preSignedPool ?w') = transactions (preSignedPool w) @ map (sealed sign) txs"
    and p: "promises ?w' = (promises w)[k := (promises w ! k)\<lparr>state := Fulfilled\<rparr>]"
    by (cases c; simp add: settle_def preSignBatch_resume_def setIsReady_def Let_def)+
  have "signedEntry ?w' e" if "e \<in> set (transactions (preSignedPool w))" for e
    using that assms extends_batchSettled [of w k sign]
    by (auto simp: allSigned_def intro: signedEntry_extends)
  moreover have "signedEntry ?w' (sealed sign t)" if "t \<in> set txs" for t
    unfolding signedEntry_def
    using that ok p by (intro exI [of _ k] exI [of _ txs] exI [of _ c]) (simp add: sealed_def)
  ultimately show ?thesis by (auto simp: allSigned_def t)
qed

lemma allSigned_step: "allSigned w \<Longrightarrow> allSigned (step acct e w)"
proof (cases e)
  case (BatchSettled k sign)
  assume "allSigned w"
  with BatchSettled show ?thesis by (simp add: allSigned_batchSettled)
next
  case (Click now txStart)
  assume a: "allSigned w"
  have "transactions (preSignedPool (handleClick acct now txStart w)) = transactions (preSignedPool w)"
  proof (cases rule: handleClick_pool_cases [of acct now txStart w])
    case same
    then show ?thesis by simp
  next
    case (take tx w1 w2)
    with getNextTransaction_Inr(3) [OF take(5)] show ?thesis by simp
  qed
  with a Click extends_handleClick [of w acct now txStart] show ?thesis
    by (auto intro: allSigned_same)
next
  case Mount
  assume "allSigned w"
  then show ?thesis using Mount extends_mount [of w] by (auto intro: allSigned_same)
next
  case (QueriesSettled k r)
  assume "allSigned w"
  then show ?thesis using QueriesSettled extends_queriesSettled [of w k r]
    by (auto intro: allSigned_same simp: pool_queriesSettled)
next
  case (EstimateSettled k r)
  assume "allSigned w"
  then show ?thesis using EstimateSettled extends_estimateSettled [of w acct k r]
    by (auto intro: allSigned_same)
next
  case (Frame now)
  assume "allSigned w"
  then show ?thesis using Frame by (auto intro: allSigned_same)
next
  case (BroadcastSettled r)
  assume "allSigned w"
  then show ?thesis using BroadcastSettled by (auto intro: allSigned_same)
qed

lemma allSigned_run: "allSigned w \<Longrightarrow> allSigned (run acct evs w)"
  by (induction evs arbitrary: w) (simp_all add: allSigned_step)

lemma allSigned_initial: "allSigned initialWorld"
  by (simp add: allSigned_def initialWorld_def)

subsection \<open>Five takes from the primed world\<close>

lemma take_once_ex:
  assumes "transactions (preSignedPool w) = T" and "currentIndex (preSignedPool w) = c"
    and "baseNonce (preSignedPool w) = N" and "hasTriggeredRefill (preSignedPool w) = g"
    and "gasPrice w = gp" and "gasLimit w = gl" and "promises w = P"
    and "c < length T" and "c' = c + 1" and "g' = (g \<or> c' mod 5 = 0)"
    and "P' = P @ (if c' mod 5 = 0 \<and> \<not> g then trigger acct w else [])"
  shows "\<exists>w'. getNextTransaction acct w = Inr (Some (T ! c), w')
    \<and> transactions (preSignedPool w') = T
    \<and> currentIndex (preSignedPool w') = c'
    \<and> baseNonce (preSignedPool w') = N
    \<and> hasTriggeredRefill (preSignedPool w') = g'
    \<and> gasPrice w' = gp \<and> gasLimit w' = gl
    \<and> promises w' = P'"
proof -
  from assms have "currentIndex (preSignedPool w) < length (transactions (preSignedPool w))"
    by simp
  from getNextTransaction_succeeds [OF this, of acct] obtain w' where
    g: "getNextTransaction acct w
       = Inr (Some (transactions (preSignedPool w) ! currentIndex (preSignedPool w)), w')"
    by blast
  from g getNextTransaction_Inr(3-9) [OF g] assms show ?thesis
    by (intro exI [of _ w']) simp
qed

lemma takeN_5_primed:
  assumes "\<forall>t. sign t \<noteq> None"
  shows "\<exists>w'. takeN acct 5 (primedWorld acct N gas gl sign)
      = Inr (map (\<lambda>i. Some (sealed sign (txDataFor acct gas gl N i))) [0, 1, 2, 3, 4], w')
    \<and> refills w' = [\<lparr>job = SignBatch (map (txDataFor acct gas gl (N + 10)) [0..<10]) RefillCont,
                      state = Pending\<rparr>]"
proof -
  let ?w0 = "primedWorld acct N gas gl sign"
  define T where "T = map (\<lambda>i. sealed sign (txDataFor acct gas gl N i)) [0..<10]"
  define P where "P = promises ?w0"
  note w0 = primedWorld_eq [OF assms, of acct N gas gl]
  have p0: "transactions (preSignedPool ?w0) = T" "currentIndex (preSignedPool ?w0) = 0"
    "baseNonce (preSignedPool ?w0) = N" "hasTriggeredRefill (preSignedPool ?w0) = False"
    "gasPrice ?w0 = gas" "gasLimit ?w0 = gl" "promises ?w0 = P"
    by (simp_all add: w0 T_def P_def)
  have r0: "filter isRefill P = []" by (simp add: P_def w0)
  have len: "length T = 10" by (simp add: T_def)
  have "\<exists>w'. getNextTransaction acct ?w0 = Inr (Some (T ! 0), w')
      \<and> transactions (preSignedPool w') = T \<and> currentIndex (preSignedPool w') = 1
      \<and> baseNonce (preSignedPool w') = N \<and> hasTriggeredRefill (preSignedPool w') = False
      \<and> gasPrice w' = gas \<and> gasLimit w' = gl \<and> promises w' = P"
    by (rule take_once_ex [OF p0]) (simp_all add: len)
  then obtain w1 where g1: "getNextTransaction acct ?w0 = Inr (Some (T ! 0), w1)"
    and p1: "transactions (preSignedPool w1) = T" "currentIndex (preSignedPool w1) = 1"
      "baseNonce (preSignedPool w1) = N" "hasTriggeredRefill (preSignedPool w1) = False"
      "gasPrice w1 = gas" "gasLimit w1 = gl" "promises w1 = P"
    by blast
  have "\<exists>w'. getNextTransaction acct w1 = Inr (Some (T ! 1), w')
      \<and> transactions (preSignedPool w') = T \<and> currentIndex (preSignedPool w') = 2
      \<and> baseNonce (preSignedPool w') = N \<and> hasTriggeredRefill (preSignedPool w') = False
      \<and> gasPrice w' = gas \<and> gasLimit w' = gl \<and> promises w' = P"
    by (rule take_once_ex [OF p1]) (simp_all add: len)
  then obtain w2 where g2: "getNextTransaction acct w1 = Inr (Some (T ! 1), w2)"
    and p2: "transactions (preSignedPool w2) = T" "currentIndex (preSignedPool w2) = 2"
      "baseNonce (preSignedPool w2) = N" "hasTriggeredRefill (preSignedPool w2) = False"
      "gasPrice w2 = gas" "gasLimit w2 = gl" "promises w2 = P"
    by blast
  have "\<exists>w'. getNextTransaction acct w2 = Inr (Some (T ! 2), w')
      \<and> transactions (preSignedPool w') = T \<and> currentIndex (preSignedPool w') = 3
      \<and> baseNonce (preSignedPool w') = N \<and> hasTriggeredRefill (preSignedPool w') = False
      \<and> gasPrice w' = gas \<and> gasLimit w' = gl \<and> promises w' = P"
    by (rule take_once_ex [OF p2]) (simp_all add: len)
  then obtain w3 where g3: "getNextTransaction acct w2 = Inr (Some (T ! 2), w3)"
    and p3: "transactions (preSignedPool w3) = T" "currentIndex (preSignedPool w3) = 3"
      "baseNonce (preSignedPool w3) = N" "hasTriggeredRefill (preSignedPool w3) = False"
      "gasPrice w3 = gas" "gasLimit w3 = gl" "promises w3 = P"
    by blast
  have "\<exists>w'. getNextTransaction acct w3 = Inr (Some (T ! 3), w')
      \<and> transactions (preSignedPool w') = T \<and> currentIndex (preSignedPool w') = 4
      \<and> baseNonce (preSignedPool w') = N \<and> hasTriggeredRefill (preSignedPool w') = False
      \<and> gasPrice w' = gas \<and> gasLimit w' = gl \<and> promises w' = P"
    by (rule take_once_ex [OF p3]) (simp_all add: len)
  then obtain w4 where g4: "getNextTransaction acct w3 = Inr (Some (T ! 3), w4)"
    and p4: "transactions (preSignedPool w4) = T" "currentIndex (preSignedPool w4) = 4"
      "baseNonce (preSignedPool w4) = N" "hasTriggeredRefill (preSignedPool w4) = False"
      "gasPrice w4 = gas" "gasLimit w4 = gl" "promises w4 = P"
    by blast
  have "\<exists>w'. getNextTransaction acct w4 = Inr (Some (T ! 4), w')
      \<and> transactions (preSignedPool w') = T \<and> currentIndex (preSignedPool w') = 5
      \<and> baseNonce (preSignedPool w') = N \<and> hasTriggeredRefill (preSignedPool w') = True
      \<and> gasPrice w' = gas \<and> gasLimit w' = gl \<and> promises w' = P @ trigger acct w4"
    by (rule take_once_ex [OF p4]) (simp_all add: len)
  then obtain w5 where g5: "getNextTransaction acct w4 = Inr (Some (T ! 4), w5)"
    and p5: "promises w5 = P @ trigger acct w4"
    by blast
  have "takeN acct (Suc (Suc (Suc (Suc (Suc 0))))) ?w0
      = Inr ([Some (T ! 0), Some (T ! 1), Some (T ! 2), Some (T ! 3), Some (T ! 4)], w5)"
    by (simp add: g1 g2 g3 g4 g5)
  moreover have "(5::nat) = Suc (Suc (Suc (Suc (Suc 0))))" by simp
  ultimately have "takeN acct 5 ?w0
      = Inr ([Some (T ! 0), Some (T ! 1), Some (T ! 2), Some (T ! 3), Some (T ! 4)], w5)"
    by (simp only:)
  moreover have "T ! i = sealed sign (txDataFor acct gas gl N i)" if "i < 10" for i
    using that by (simp add: T_def del: upt.simps upt_rec_numeral)
  ultimately have t: "takeN acct 5 ?w0
      = Inr (map (\<lambda>i. Some (sealed sign (txDataFor acct gas gl N i))) [0, 1, 2, 3, 4], w5)"
    by simp
  have "trigger acct w4
      = [\<lparr>job = SignBatch (map (txDataFor acct gas gl (N + 10)) [0..<10]) RefillCont,
           state = Pending\<rparr>]"
    by (simp add: trigger_def p4 len del: upt.simps upt_rec_numeral)
  then have "refills w5 = [\<lparr>job = SignBatch (map (txDataFor acct gas gl (N + 10)) [0..<10]) RefillCont,
                      state = Pending\<rparr>]"
    by (simp add: refills_def p5 r0 del: upt.simps upt_rec_numeral)
  with t show ?thesis by blast
qed

lemma batch_nonces:
  "map tx_nonce (map (txDataFor acct gp gl s) [0..<n]) = [s..<s + n]"
proof -
  have "map tx_nonce (map (txDataFor acct gp gl s) [0..<n]) = map (\<lambda>i. i + s) [0..<n]"
    by (simp add: txDataFor_def add.commute)
  also have "\<dots> = [s..<n + s]" by (rule map_add_upt)
  finally show ?thesis by (simp add: add.commute)
qed

subsection \<open>A concrete world\<close>

lemma demoSigner_total: "\<forall>t. demoSigner t \<noteq> None"
  by (simp add: demoSigner_def)

lemma demoWorld_run:
  "demoWorld = run ''0xA'' [Mount, QueriesSettled 0 (Some (100, 7)), EstimateSettled 1 (Some 21000),
     BatchSettled 2 demoSigner] initialWorld"
  by (simp add: demoWorld_def primedWorld_def)

lemma demoWorld_pool:
  "currentIndex (preSignedPool demoWorld) = 0"
  "length (transactions (preSignedPool demoWorld)) = 10"
  "baseNonce (preSignedPool demoWorld) = 100"
  "hasTriggeredRefill (preSignedPool demoWorld) = False"
  by (simp_all add: demoWorld_def primedWorld_eq [OF demoSigner_total])

subsection \<open>The contract of a take\<close>

text \<open>
  Claim C2. In every world that a run reaches from the initial one, \<^verbatim>\<open>getNextTransaction\<close>
  throws exactly when the cursor equals the length of the buffer; otherwise it returns the
  entry at the cursor and advances the cursor by one. Hence as many calls in a row as there
  are unused entries all succeed, returning those entries in order, and the call after them
  throws.
\<close>

theorem getNextTransaction_contract:
  assumes "w = run acct evs initialWorld" and "p = preSignedPool w"
  shows "(getNextTransaction acct w = Inl NoPreSignedTransactionsAvailable
            \<longleftrightarrow> currentIndex p = length (transactions p))
     \<and> (currentIndex p < length (transactions p) \<longrightarrow>
          (\<exists>w'. getNextTransaction acct w = Inr (Some (transactions p ! currentIndex p), w')
             \<and> currentIndex (preSignedPool w') = currentIndex p + 1))
     \<and> (\<exists>w'. takeN acct (length (transactions p) - currentIndex p) w
                = Inr (map Some (drop (currentIndex p) (transactions p)), w')
             \<and> getNextTransaction acct w' = Inl NoPreSignedTransactionsAvailable)"
proof -
  from assms have b: "currentIndex p \<le> length (transactions p)"
    using poolBounded_run [OF poolBounded_initial, of acct evs] by (simp add: poolBounded_def)
  from b assms(2) have 1: "getNextTransaction acct w = Inl NoPreSignedTransactionsAvailable
            \<longleftrightarrow> currentIndex p = length (transactions p)"
    by (auto simp: getNextTransaction_Inl)
  have 2: "\<exists>w'. getNextTransaction acct w = Inr (Some (transactions p ! currentIndex p), w')
             \<and> currentIndex (preSignedPool w') = currentIndex p + 1"
    if lt: "currentIndex p < length (transactions p)"
  proof -
    from lt assms(2) getNextTransaction_succeeds [of w acct] obtain w' where
      g: "getNextTransaction acct w = Inr (Some (transactions p ! currentIndex p), w')"
      by auto
    from getNextTransaction_Inr(4) [OF g] g assms(2) show ?thesis by auto
  qed
  from b assms(2) have "currentIndex (preSignedPool w) + (length (transactions p) - currentIndex p)
      = length (transactions (preSignedPool w))"
    by simp
  from takeN_drains [OF this, of acct] obtain w' where
    t: "takeN acct (length (transactions p) - currentIndex p) w
        = Inr (map Some (drop (currentIndex (preSignedPool w)) (transactions (preSignedPool w))), w')"
    and t2: "transactions (preSignedPool w') = transactions (preSignedPool w)"
    and t3: "currentIndex (preSignedPool w') = length (transactions (preSignedPool w))"
    by blast
  from t2 t3 have "getNextTransaction acct w' = Inl NoPreSignedTransactionsAvailable"
    by (simp add: getNextTransaction_Inl)
  with t assms(2) have 3: "\<exists>w'. takeN acct (length (transactions p) - currentIndex p) w
                = Inr (map Some (drop (currentIndex p) (transactions p)), w')
             \<and> getNextTransaction acct w' = Inl NoPreSignedTransactionsAvailable"
    by auto
  from 1 2 3 show ?thesis by blast
qed

theorem getNextTransaction_contract_witness:
  "getNextTransaction ''0xA'' demoWorld \<noteq> Inl NoPreSignedTransactionsAvailable
   \<and> (\<exists>w'. getNextTransaction ''0xA'' demoWorld
              = Inr (Some (transactions (preSignedPool demoWorld) ! 0), w')
          \<and> currentIndex (preSignedPool w') = 1)
   \<and> (\<exists>w'. takeN ''0xA'' 10 demoWorld
              = Inr (map Some (transactions (preSignedPool demoWorld)), w')
          \<and> getNextTransaction ''0xA'' w' = Inl NoPreSignedTransactionsAvailable)"
  using getNextTransaction_contract [OF demoWorld_run refl]
  by (simp add: demoWorld_pool)

text \<open>
  Claim C9. In every world that a run reaches, a call of \<^verbatim>\<open>getNextTransaction\<close> that
  returns has read the buffer inside its bounds: the value returned is never
  \<^verbatim>\<open>undefined\<close>, it is the entry at the cursor, and that entry was produced by a
  fulfilled signing batch.
\<close>

theorem getNextTransaction_defined:
  assumes "w = run acct evs initialWorld" and "getNextTransaction acct w = Inr (tx, w')"
  shows "\<exists>e. tx = Some e
     \<and> currentIndex (preSignedPool w) < length (transactions (preSignedPool w))
     \<and> e = transactions (preSignedPool w) ! currentIndex (preSignedPool w)
     \<and> signedEntry w e"
proof -
  note g = getNextTransaction_Inr(1,2) [OF assms(2)]
  from assms(1) have "allSigned w"
    using allSigned_run [OF allSigned_initial, of acct evs] by simp
  with g(1) have "signedEntry w (transactions (preSignedPool w) ! currentIndex (preSignedPool w))"
    by (simp add: allSigned_def)
  with g show ?thesis by simp
qed

theorem getNextTransaction_defined_witness:
  "\<exists>e w'. getNextTransaction ''0xA'' demoWorld = Inr (Some e, w')
     \<and> e = transactions (preSignedPool demoWorld) ! 0
     \<and> signedEntry demoWorld e"
proof -
  from getNextTransaction_succeeds [of demoWorld "''0xA''"] obtain w' where
    g: "getNextTransaction ''0xA'' demoWorld
      = Inr (Some (transactions (preSignedPool demoWorld) ! currentIndex (preSignedPool demoWorld)), w')"
    by (auto simp: demoWorld_pool)
  from getNextTransaction_defined [OF demoWorld_run g] g show ?thesis
    by (auto simp: demoWorld_pool)
qed

subsection \<open>The handlers case by case\<close>

lemma queriesSettled_cases:
  obtains (none) "queriesSettled k r w = w"
  | (ok) m nonce gas where "k < length (promises w)" "state (promises w ! k) = Pending"
      "job (promises w ! k) = Queries m" "r = Some (nonce, gas)"
      "queriesSettled k r w =
         w\<lparr>gasPrice := gas, preSignedPool := (preSignedPool w)\<lparr>baseNonce := nonce\<rparr>,
           promises := (promises w)[k := (promises w ! k)\<lparr>state := Fulfilled\<rparr>]
              @ [\<lparr>job = EstimateGas m nonce, state = Pending\<rparr>]\<rparr>"
  | (failed) m where "k < length (promises w)" "state (promises w ! k) = Pending"
      "job (promises w ! k) = Queries m" "r = None"
      "queriesSettled k r w =
         w\<lparr>promises := (promises w)[k := (promises w ! k)\<lparr>state := Rejected\<rparr>],
           console := console w @ [FailedToInitialize]\<rparr>"
proof (cases "k < length (promises w) \<and> state (promises w ! k) = Pending")
  case False
  then have "queriesSettled k r w = w" by (auto simp: queriesSettled_def)
  then show ?thesis by (rule none)
next
  case True
  show ?thesis
  proof (cases "job (promises w ! k)")
    case (Queries m)
    show ?thesis
    proof (cases r)
      case None
      with True Queries show ?thesis
        by (intro failed [of m]) (simp_all add: queriesSettled_def settle_def Let_def)
    next
      case (Some a)
      obtain nonce gas where a: "a = (nonce, gas)" by (cases a)
      with True Queries Some show ?thesis
        by (intro ok [of m nonce gas]) (simp_all add: queriesSettled_def settle_def Let_def)
    qed
  next
    case (EstimateGas m n)
    with True have "queriesSettled k r w = w" by (simp add: queriesSettled_def)
    then show ?thesis by (rule none)
  next
    case (SignBatch txs c)
    with True have "queriesSettled k r w = w" by (simp add: queriesSettled_def)
    then show ?thesis by (rule none)
  qed
qed

lemma estimateSettled_cases:
  obtains (none) "estimateSettled acct k r w = w"
  | (ok) m nonce g where "k < length (promises w)" "state (promises w ! k) = Pending"
      "job (promises w ! k) = EstimateGas m nonce" "r = Some g"
      "estimateSettled acct k r w =
         w\<lparr>gasLimit := g, console := console w @ [GasEstimated g],
           promises := (promises w)[k := (promises w ! k)\<lparr>state := Fulfilled\<rparr>]
              @ [\<lparr>job = SignBatch (map (txDataFor acct (gasPrice w) g nonce) [0..<10]) (InitCont m),
                  state = Pending\<rparr>]\<rparr>"
  | (failed) m nonce where "k < length (promises w)" "state (promises w ! k) = Pending"
      "job (promises w ! k) = EstimateGas m nonce" "r = None"
      "estimateSettled acct k r w =
         w\<lparr>promises := (promises w)[k := (promises w ! k)\<lparr>state := Rejected\<rparr>],
           console := console w @ [FailedToInitialize]\<rparr>"
proof (cases "k < length (promises w) \<and> state (promises w ! k) = Pending")
  case False
  then have "estimateSettled acct k r w = w" by (auto simp: estimateSettled_def)
  then show ?thesis by (rule none)
next
  case True
  show ?thesis
  proof (cases "job (promises w ! k)")
    case (EstimateGas m nonce)
    show ?thesis
    proof (cases r)
      case None
      with True EstimateGas show ?thesis
        by (intro failed [of m nonce]) (simp_all add: estimateSettled_def settle_def Let_def)
    next
      case (Some g)
      with True EstimateGas show ?thesis
        by (intro ok [of m nonce g])
           (simp_all add: estimateSettled_def settle_def preSignBatch_def Let_def
             del: upt.simps upt_rec_numeral)
    qed
  next
    case (Queries m)
    with True have "estimateSettled acct k r w = w" by (simp add: estimateSettled_def)
    then show ?thesis by (rule none)
  next
    case (SignBatch txs c)
    with True have "estimateSettled acct k r w = w" by (simp add: estimateSettled_def)
    then show ?thesis by (rule none)
  qed
qed

lemma batchSettled_ok_eq:
  assumes "k < length (promises w)" and "state (promises w ! k) = Pending"
    and "job (promises w ! k) = SignBatch txs c" and "\<forall>t \<in> set txs. sign t \<noteq> None"
  shows "batchSettled k sign w =
     w\<lparr>preSignedPool := (preSignedPool w)
          \<lparr>transactions := transactions (preSignedPool w) @ map (sealed sign) txs,
           hasTriggeredRefill := (c \<noteq> RefillCont \<and> hasTriggeredRefill (preSignedPool w))\<rparr>,
       isReady := (isReady w \<or> c = InitCont (mountId w)),
       promises := (promises w)[k := (promises w ! k)\<lparr>state := Fulfilled\<rparr>],
       console := console w @ [PreSigned (length txs)
          (length (transactions (preSignedPool w)) + length txs)]\<rparr>"
  by (cases c)
     (auto simp: batchSettled_ok [OF assms] preSignBatch_resume_def settle_def setIsReady_def Let_def)

lemma batchSettled_failed_eq:
  assumes "k < length (promises w)" and "state (promises w ! k) = Pending"
    and "job (promises w ! k) = SignBatch txs c" and "\<exists>t \<in> set txs. sign t = None"
  shows "batchSettled k sign w =
     w\<lparr>promises := (promises w)[k := (promises w ! k)\<lparr>state := Rejected\<rparr>],
       console := console w @ (if c = RefillCont then [] else [FailedToInitialize])\<rparr>"
  by (cases c) (auto simp: batchSettled_failed [OF assms] settle_def Let_def)

lemma handleClick_ready:
  assumes "isReady w" and "gameState w = READY"
  shows "handleClick acct now txStart w =
    (case getNextTransaction acct (w\<lparr>clickTimeRef := now, gameState := CLICKED\<rparr>) of
       Inl err \<Rightarrow> handleClick_catch (currentRound w) (js_round (now - greenTimeRef w) - ADJUSTMENT)
                    (w\<lparr>clickTimeRef := now, gameState := CLICKED\<rparr>)
     | Inr (signedTx, w2) \<Rightarrow>
         w2\<lparr>suspended := Some \<lparr>c_attempt = currentRound w,
              c_reactionTime = js_round (now - greenTimeRef w) - ADJUSTMENT,
              c_txStart = txStart, c_signedTx = signedTx\<rparr>\<rparr>)"
  using assms by (simp add: handleClick_def Let_def)

lemma handleClick_instance [simp]:
  "isReady (handleClick acct now txStart w) = isReady w"
  "mountId (handleClick acct now txStart w) = mountId w"
proof -
  have "isReady (handleClick acct now txStart w) = isReady w
      \<and> mountId (handleClick acct now txStart w) = mountId w"
  proof (cases "isReady w \<and> gameState w = READY")
    case False
    then show ?thesis
      by (auto simp: handleClick_def startRound_def clearTimers_def)
  next
    case True
    let ?w0 = "w\<lparr>clickTimeRef := now, gameState := CLICKED\<rparr>"
    show ?thesis
    proof (cases "getNextTransaction acct ?w0")
      case (Inl e)
      with True show ?thesis
        by (simp add: handleClick_ready handleClick_catch_def nextRound_def startRound_def
            clearTimers_def)
    next
      case (Inr r)
      obtain tx w2 where r: "r = (tx, w2)" by (cases r)
      with Inr getNextTransaction_ui(1,2) [of acct ?w0 tx w2] True show ?thesis
        by (simp add: handleClick_ready)
    qed
  qed
  then show "isReady (handleClick acct now txStart w) = isReady w"
    "mountId (handleClick acct now txStart w) = mountId w"
    by simp_all
qed

lemma handleClick_promises:
  "promises (handleClick acct now txStart w) = promises w
   \<or> promises (handleClick acct now txStart w) = promises w @ trigger acct w"
proof (cases rule: handleClick_pool_cases [of acct now txStart w])
  case same
  then show ?thesis by simp
next
  case (take tx w1 w2)
  with getNextTransaction_Inr(7) [OF take(5)] show ?thesis
    by (auto simp: trigger_def)
qed

lemma handleClick_notReady: "\<not> isReady w \<Longrightarrow> handleClick acct now txStart w = w"
  by (simp add: handleClick_def)

lemma broadcastSettled_instance [simp]:
  "isReady (broadcastSettled r w) = isReady w" "mountId (broadcastSettled r w) = mountId w"
  by (simp_all add: broadcastSettled_def handleClick_catch_def nextRound_def startRound_def
      clearTimers_def Let_def split: option.splits)

lemma checkTime_instance [simp]:
  "isReady (checkTime now w) = isReady w" "mountId (checkTime now w) = mountId w"
  by (simp_all add: checkTime_def)

lemma nextRound_fields:
  "results (nextRound r w) = results w"
  "isReady (nextRound r w) = isReady w"
  "gameState (nextRound r w) = (if r \<ge> 5 then FINISHED else WAITING)"
  "currentRound (nextRound r w) = (if r \<ge> 5 then currentRound w else currentRound w + 1)"
  "suspended (nextRound r w) = suspended w"
  "animFrameRef (nextRound r w) = (if r \<ge> 5 then animFrameRef w else True)"
  by (simp_all add: nextRound_def startRound_def clearTimers_def)

lemma handleClick_catch_fields:
  "results (handleClick_catch r rt w)
     = results w @ [\<lparr>attempt = r, reactionTime = rt, txTime = 0, totalTime = rt, failed = True\<rparr>]"
  "isReady (handleClick_catch r rt w) = isReady w"
  "gameState (handleClick_catch r rt w) = (if r \<ge> 5 then FINISHED else WAITING)"
  "currentRound (handleClick_catch r rt w) = (if r \<ge> 5 then currentRound w else currentRound w + 1)"
  "animFrameRef (handleClick_catch r rt w) = (if r \<ge> 5 then animFrameRef w else True)"
  by (simp_all add: handleClick_catch_def nextRound_fields)

subsection \<open>The start of a refill\<close>

lemma trigger_nonces:
  "\<exists>txs. trigger acct w = [\<lparr>job = SignBatch txs RefillCont, state = Pending\<rparr>]
     \<and> length txs = 10
     \<and> map tx_nonce txs
        = [baseNonce (preSignedPool w) + length (transactions (preSignedPool w))
             ..< baseNonce (preSignedPool w) + length (transactions (preSignedPool w)) + 10]"
  by (simp add: trigger_def batch_nonces [unfolded map_map] del: upt.simps upt_rec_numeral)

subsection \<open>A failed broadcast\<close>

text \<open>
  Claim C7. A click on the green box records the reaction time. When the broadcast that
  follows the take fails, the round is recorded as failed with the transaction time zero and
  the total time equal to the reaction time, and the game goes on as after a confirmed
  broadcast: to the next round, which is scheduled, or after the fifth round to the end of
  the game. The same happens at once when the take itself throws.
\<close>

theorem broadcast_failure_recorded:
  assumes "isReady w" and "gameState w = READY"
    and "rt = js_round (now - greenTimeRef w) - ADJUSTMENT"
    and "w1 = handleClick acct now txStart w"
    and "w2 = broadcastSettled None w1"
    and "w3 = broadcastSettled (Some t) w1"
    and "r = \<lparr>attempt = currentRound w, reactionTime = rt, txTime = 0, totalTime = rt, failed = True\<rparr>"
  shows "if currentIndex (preSignedPool w) < length (transactions (preSignedPool w))
         then gameState w1 = CLICKED \<and> results w1 = results w \<and> suspended w1 \<noteq> None
            \<and> results w2 = results w @ [r]
            \<and> isReady w2
            \<and> gameState w2 = (if currentRound w \<ge> 5 then FINISHED else WAITING)
            \<and> currentRound w2 = (if currentRound w \<ge> 5 then currentRound w else currentRound w + 1)
            \<and> (currentRound w < 5 \<longrightarrow> animFrameRef w2)
            \<and> gameState w2 = gameState w3 \<and> currentRound w2 = currentRound w3
         else results w1 = results w @ [r]
            \<and> isReady w1
            \<and> gameState w1 = (if currentRound w \<ge> 5 then FINISHED else WAITING)
            \<and> currentRound w1 = (if currentRound w \<ge> 5 then currentRound w else currentRound w + 1)
            \<and> (currentRound w < 5 \<longrightarrow> animFrameRef w1)"
proof (cases "currentIndex (preSignedPool w) < length (transactions (preSignedPool w))")
  case False
  let ?w0 = "w\<lparr>clickTimeRef := now, gameState := CLICKED\<rparr>"
  from False have "getNextTransaction acct ?w0 = Inl NoPreSignedTransactionsAvailable"
    by (simp add: getNextTransaction_Inl)
  with assms have "w1 = handleClick_catch (currentRound w) rt ?w0"
    by (simp add: handleClick_ready)
  with False assms(1,7) show ?thesis by (simp add: handleClick_catch_fields)
next
  case True
  let ?w0 = "w\<lparr>clickTimeRef := now, gameState := CLICKED\<rparr>"
  from True getNextTransaction_succeeds [of ?w0 acct] obtain tx wt where
    g: "getNextTransaction acct ?w0 = Inr (tx, wt)"
    by auto
  note u = getNextTransaction_ui [OF g]
  let ?c = "\<lparr>c_attempt = currentRound w, c_reactionTime = rt, c_txStart = txStart,
              c_signedTx = tx\<rparr>"
  from g assms have w1: "w1 = wt\<lparr>suspended := Some ?c\<rparr>"
    by (simp add: handleClick_ready)
  with u assms(1) have a: "gameState w1 = CLICKED" "results w1 = results w" "suspended w1 = Some ?c"
    "isReady w1" "currentRound w1 = currentRound w"
    by simp_all
  from a assms(5) have w2: "w2 = handleClick_catch (currentRound w) rt (w1\<lparr>suspended := None\<rparr>)"
    by (simp add: broadcastSettled_def)
  from a assms(6) have w3: "gameState w3 = (if currentRound w \<ge> 5 then FINISHED else WAITING)"
    "currentRound w3 = (if currentRound w \<ge> 5 then currentRound w else currentRound w + 1)"
    by (simp_all add: broadcastSettled_def nextRound_fields Let_def)
  from True a w3 assms(7) show ?thesis
    by (simp add: w2 handleClick_catch_fields)
qed

lemma readyWorld_fields:
  "isReady readyWorld" "gameState readyWorld = READY" "greenTimeRef readyWorld = 1000"
  "currentRound readyWorld = 1" "results readyWorld = []"
  "preSignedPool readyWorld = preSignedPool demoWorld"
  by (simp_all add: readyWorld_def demoWorld_def primedWorld_eq [OF demoSigner_total]
      handleClick_def startRound_def clearTimers_def checkTime_def)

theorem broadcast_failure_recorded_witness:
  "isReady readyWorld \<and> gameState readyWorld = READY
   \<and> results (broadcastSettled None (handleClick ''0xA'' (2469 / 2) 1235 readyWorld))
       = [\<lparr>attempt = 1, reactionTime = 135, txTime = 0, totalTime = 135, failed = True\<rparr>]
   \<and> gameState (broadcastSettled None (handleClick ''0xA'' (2469 / 2) 1235 readyWorld)) = WAITING
   \<and> currentRound (broadcastSettled None (handleClick ''0xA'' (2469 / 2) 1235 readyWorld)) = 2"
proof -
  from broadcast_failure_recorded [OF readyWorld_fields(1,2) refl refl refl refl refl,
      of "''0xA''" "2469 / 2" 1235 0]
  show ?thesis
    by (simp add: readyWorld_fields demoWorld_pool js_round_def ADJUSTMENT_def)
qed

subsection \<open>The initialisation of the mounted instance\<close>

lemma own_mount:
  assumes "ownersBounded w"
  shows "ownPendingAt (mount w) i \<longleftrightarrow> i = length (promises w)"
proof -
  have "\<not> (i < length (promises w) \<and> owner (job (promises w ! i)) = Some (mountId w + 1))"
    using assms by (fastforce simp: ownersBounded_def)
  then show ?thesis
    by (auto simp: ownPendingAt_def mount_def nth_append)
qed

lemma ownersBounded_mount: "ownersBounded w \<Longrightarrow> ownersBounded (mount w)"
  by (fastforce simp: ownersBounded_def mount_def nth_append)

lemma evolves_quiet:
  "mountId w' = mountId w \<Longrightarrow> promises w' = promises w \<Longrightarrow> isReady w' = isReady w
     \<Longrightarrow> evolves w w'"
  by (simp add: evolves_def)

lemma evolves_queriesSettled: "evolves w (queriesSettled k r w)"
proof (cases rule: queriesSettled_cases [of k r w])
  case none
  then show ?thesis by (simp add: evolves_quiet)
next
  case (ok m nonce gas)
  show ?thesis
    unfolding evolves_def
    by (rule conjI, simp add: ok(5), rule disjI2,
        rule exI [of _ k], rule exI [of _ Fulfilled],
        rule exI [of _ "[\<lparr>job = EstimateGas m nonce, state = Pending\<rparr>]"])
       (simp add: ok(1,2,3,5))
next
  case (failed m)
  show ?thesis
    unfolding evolves_def
    by (rule conjI, simp add: failed(5), rule disjI2,
        rule exI [of _ k], rule exI [of _ Rejected], rule exI [of _ "[]"])
       (simp add: failed(1,2,3,5))
qed

lemma evolves_estimateSettled: "evolves w (estimateSettled acct k r w)"
proof (cases rule: estimateSettled_cases [of acct k r w])
  case none
  then show ?thesis by (simp add: evolves_quiet)
next
  case (ok m nonce g)
  show ?thesis
    unfolding evolves_def
    by (rule conjI, simp add: ok(5), rule disjI2,
        rule exI [of _ k], rule exI [of _ Fulfilled],
        rule exI [of _ "[\<lparr>job = SignBatch (map (txDataFor acct (gasPrice w) g nonce) [0..<10])
             (InitCont m), state = Pending\<rparr>]"])
       (simp add: ok(1,2,3,5) del: upt.simps upt_rec_numeral)
next
  case (failed m nonce)
  show ?thesis
    unfolding evolves_def
    by (rule conjI, simp add: failed(5), rule disjI2,
        rule exI [of _ k], rule exI [of _ Rejected], rule exI [of _ "[]"])
       (simp add: failed(1,2,3,5))
qed

lemma evolves_batchSettled: "evolves w (batchSettled k sign w)"
proof (cases rule: batchSettled_cases [of k sign w])
  case none
  then show ?thesis by (simp add: evolves_quiet)
next
  case (ok txs c)
  note eq = batchSettled_ok_eq [OF ok]
  show ?thesis
    unfolding evolves_def
    by (rule conjI, simp add: eq, rule disjI2,
        rule exI [of _ k], rule exI [of _ Fulfilled], rule exI [of _ "[]"])
       (auto simp: eq ok)
next
  case (failed txs c)
  note eq = batchSettled_failed_eq [OF failed]
  show ?thesis
    unfolding evolves_def
    by (rule conjI, simp add: eq, rule disjI2,
        rule exI [of _ k], rule exI [of _ Rejected], rule exI [of _ "[]"])
       (simp add: eq failed)
qed

lemma evolves_handleClick: "evolves w (handleClick acct now txStart w)"
  using handleClick_promises [of acct now txStart w]
  unfolding evolves_def
  by (auto simp: trigger_def)

lemma evolves_step: "e \<noteq> Mount \<Longrightarrow> evolves w (step acct e w)"
  by (cases e)
     (simp_all add: evolves_queriesSettled evolves_estimateSettled evolves_batchSettled
       evolves_handleClick evolves_quiet)

lemma own_appended:
  assumes "mountId w' = mountId w" and "promises w' = promises w @ qs"
    and "\<forall>q \<in> set qs. owner (job q) = None"
  shows "ownPendingAt w' i \<longleftrightarrow> ownPendingAt w i"
  using assms by (auto simp: ownPendingAt_def nth_append)

lemma own_settle:
  assumes "mountId w' = mountId w" and "k < length (promises w)"
    and "state (promises w ! k) = Pending" and "st \<noteq> Pending"
    and "promises w' = (promises w)[k := (promises w ! k)\<lparr>state := st\<rparr>] @ qs"
    and "\<forall>q \<in> set qs. owner (job q) = owner (job (promises w ! k))"
  shows "ownPendingAt w' i \<longleftrightarrow>
     (ownPendingAt w i \<and> i \<noteq> k)
     \<or> (length (promises w) \<le> i \<and> i < length (promises w) + length qs
          \<and> state (qs ! (i - length (promises w))) = Pending \<and> ownPendingAt w k)"
  using assms by (auto simp: ownPendingAt_def nth_append nth_list_update)

lemma evolvesE:
  assumes "evolves w w'"
  obtains (append) qs where "mountId w' = mountId w" "promises w' = promises w @ qs"
      "\<forall>q \<in> set qs. owner (job q) = None" "isReady w' = isReady w"
  | (settle) k st qs where "mountId w' = mountId w" "k < length (promises w)"
      "state (promises w ! k) = Pending" "st \<noteq> Pending"
      "promises w' = (promises w)[k := (promises w ! k)\<lparr>state := st\<rparr>] @ qs"
      "\<forall>q \<in> set qs. owner (job q) = owner (job (promises w ! k))" "length qs \<le> 1"
      "isReady w' = isReady w \<or> (qs = [] \<and> owner (job (promises w ! k)) = Some (mountId w))"
proof -
  from assms have m: "mountId w' = mountId w" by (simp add: evolves_def)
  from assms have "(\<exists>qs. promises w' = promises w @ qs \<and> (\<forall>q \<in> set qs. owner (job q) = None)
          \<and> isReady w' = isReady w)
    \<or> (\<exists>k st qs. k < length (promises w) \<and> state (promises w ! k) = Pending \<and> st \<noteq> Pending
          \<and> promises w' = (promises w)[k := (promises w ! k)\<lparr>state := st\<rparr>] @ qs
          \<and> (\<forall>q \<in> set qs. owner (job q) = owner (job (promises w ! k)))
          \<and> length qs \<le> 1
          \<and> (isReady w' = isReady w
              \<or> (qs = [] \<and> owner (job (promises w ! k)) = Some (mountId w))))"
    by (simp only: evolves_def)
  then show thesis
  proof (elim disjE exE conjE, goal_cases)
    case (1 qs)
    with m show ?case by (intro append [of qs])
  next
    case (2 k st qs)
    with m show ?case by (intro settle [of k st qs]) simp_all
  next
    case (3 k st qs)
    with m show ?case by (intro settle [of k st qs]) simp_all
  qed
qed

lemma initInvI:
  assumes "\<And>i j. ownPendingAt w i \<Longrightarrow> ownPendingAt w j \<Longrightarrow> i = j"
    and "\<And>i. isReady w \<Longrightarrow> \<not> ownPendingAt w i"
    and "\<And>i m. i < length (promises w) \<Longrightarrow> owner (job (promises w ! i)) = Some m
              \<Longrightarrow> m \<le> mountId w"
  shows "initInv w"
  unfolding initInv_def using assms by blast

lemma initInvD:
  assumes "initInv w"
  shows "ownPendingAt w i \<Longrightarrow> ownPendingAt w j \<Longrightarrow> i = j"
    and "isReady w \<Longrightarrow> \<not> ownPendingAt w i"
    and "i < length (promises w) \<Longrightarrow> owner (job (promises w ! i)) = Some m \<Longrightarrow> m \<le> mountId w"
  using assms unfolding initInv_def by blast+

lemma initInv_evolves:
  assumes "initInv w" and "evolves w w'"
  shows "initInv w'"
  using assms(2)
proof (cases rule: evolvesE)
  case (append qs)
  note o = own_appended [OF append(1,2,3)]
  show ?thesis
  proof (rule initInvI)
    fix i j
    assume "ownPendingAt w' i" "ownPendingAt w' j"
    then show "i = j" using initInvD(1) [OF assms(1)] by (simp add: o)
  next
    fix i
    assume "isReady w'"
    then show "\<not> ownPendingAt w' i" using initInvD(2) [OF assms(1)] append(4) by (simp add: o)
  next
    fix i m
    assume i: "i < length (promises w')" and n: "owner (job (promises w' ! i)) = Some m"
    show "m \<le> mountId w'"
    proof (cases "i < length (promises w)")
      case True
      with n append(1,2) initInvD(3) [OF assms(1), of i m] show ?thesis
        by (simp add: nth_append)
    next
      case False
      with i append(2) have "promises w' ! i \<in> set qs" by (simp add: nth_append)
      with append(3) n show ?thesis by simp
    qed
  qed
next
  case (settle k st qs)
  note o = own_settle [OF settle(1-6)]
  have k: "ownPendingAt w k \<longleftrightarrow> owner (job (promises w ! k)) = Some (mountId w)"
    using settle(2,3) by (simp add: ownPendingAt_def)
  show ?thesis
  proof (rule initInvI)
    fix i j
    assume i: "ownPendingAt w' i" and j: "ownPendingAt w' j"
    from i consider (old) "ownPendingAt w i" "i \<noteq> k"
      | (new) "length (promises w) \<le> i" "i < length (promises w) + length qs" "ownPendingAt w k"
      unfolding o by blast
    then show "i = j"
    proof cases
      case old
      from j consider (old2) "ownPendingAt w j" "j \<noteq> k"
        | (new2) "length (promises w) \<le> j" "j < length (promises w) + length qs" "ownPendingAt w k"
        unfolding o by blast
      then show ?thesis
      proof cases
        case old2
        with old initInvD(1) [OF assms(1)] show ?thesis by simp
      next
        case new2
        with old initInvD(1) [OF assms(1), of i k] show ?thesis by simp
      qed
    next
      case new
      from j consider (old2) "ownPendingAt w j" "j \<noteq> k"
        | (new2) "length (promises w) \<le> j" "j < length (promises w) + length qs" "ownPendingAt w k"
        unfolding o by blast
      then show ?thesis
      proof cases
        case old2
        with new initInvD(1) [OF assms(1), of j k] show ?thesis by simp
      next
        case new2
        with new settle(7) show ?thesis by linarith
      qed
    qed
  next
    fix i
    assume r: "isReady w'"
    show "\<not> ownPendingAt w' i"
    proof
      assume i: "ownPendingAt w' i"
      from r settle(8) k have "isReady w \<or> (qs = [] \<and> ownPendingAt w k)" by auto
      then show False
      proof
        assume "isReady w"
        with initInvD(2) [OF assms(1)] i show False unfolding o by blast
      next
        assume q: "qs = [] \<and> ownPendingAt w k"
        with i have "ownPendingAt w i" "i \<noteq> k" unfolding o by auto
        with q initInvD(1) [OF assms(1), of i k] show False by simp
      qed
    qed
  next
    fix i m
    assume i: "i < length (promises w')" and n: "owner (job (promises w' ! i)) = Some m"
    show "m \<le> mountId w'"
    proof (cases "i < length (promises w)")
      case True
      with n settle(1,5) initInvD(3) [OF assms(1), of i m] show ?thesis
        by (cases "i = k") (simp_all add: nth_append nth_list_update)
    next
      case False
      with i settle(5) have "promises w' ! i \<in> set qs" by (simp add: nth_append)
      with settle(6) n have "owner (job (promises w ! k)) = Some m" by auto
      with initInvD(3) [OF assms(1) settle(2)] settle(1) show ?thesis by simp
    qed
  qed
qed

lemma notReady_evolves:
  assumes "notReady w" and "evolves w w'"
  shows "notReady w'"
  using assms(2)
proof (cases rule: evolvesE)
  case (append qs)
  with assms(1) own_appended [OF append(1,2,3)] show ?thesis by (simp add: notReady_def)
next
  case (settle k st qs)
  note o = own_settle [OF settle(1-6)]
  from assms(1) have r: "\<not> isReady w" and n: "\<And>i. \<not> ownPendingAt w i"
    by (simp_all add: notReady_def)
  have "ownPendingAt w k \<longleftrightarrow> owner (job (promises w ! k)) = Some (mountId w)"
    using settle(2,3) by (simp add: ownPendingAt_def)
  with n [of k] settle(8) r have "\<not> isReady w'" by simp
  with n show ?thesis by (simp add: notReady_def o)
qed

lemma initInv_mount: "initInv w \<Longrightarrow> initInv (mount w)"
proof -
  assume i: "initInv w"
  then have b: "ownersBounded w" by (simp add: initInv_def ownersBounded_def)
  from ownersBounded_mount [OF b] have "ownersBounded (mount w)" .
  moreover have "\<not> isReady (mount w)" by (simp add: mount_def)
  ultimately show ?thesis
    by (simp add: initInv_def own_mount [OF b] ownersBounded_def)
qed

lemma initInv_initial: "initInv initialWorld"
  by (simp add: initInv_def ownPendingAt_def initialWorld_def)

lemma initInv_step: "initInv w \<Longrightarrow> initInv (step acct e w)"
proof (cases "e = Mount")
  case True
  assume "initInv w"
  with True show ?thesis by (simp add: initInv_mount)
next
  case False
  assume "initInv w"
  then show ?thesis using evolves_step [OF False] by (rule initInv_evolves)
qed

lemma initInv_run: "initInv w \<Longrightarrow> initInv (run acct evs w)"
  by (induction evs arbitrary: w) (simp_all add: initInv_step)

lemma notReady_run: "notReady w \<Longrightarrow> Mount \<notin> set evs \<Longrightarrow> notReady (run acct evs w)"
proof (induction evs arbitrary: w)
  case Nil
  then show ?case by simp
next
  case (Cons e evs)
  from Cons.prems have "e \<noteq> Mount" by auto
  from notReady_evolves [OF Cons.prems(1) evolves_step [OF this]] Cons.IH Cons.prems(2)
  show ?case by simp
qed

lemma console_grows_step: "\<exists>xs. console (step acct e w) = console w @ xs"
proof (cases e)
  case Mount
  then show ?thesis by (simp add: mount_def)
next
  case (QueriesSettled k r)
  then show ?thesis
    by (cases rule: queriesSettled_cases [of k r w]) simp_all
next
  case (EstimateSettled k r)
  then show ?thesis
    by (cases rule: estimateSettled_cases [of acct k r w]) simp_all
next
  case (BatchSettled k sign)
  show ?thesis
  proof (cases rule: batchSettled_cases [of k sign w])
    case none
    with BatchSettled show ?thesis by simp
  next
    case (ok txs c)
    with BatchSettled batchSettled_ok_eq [OF ok] show ?thesis by simp
  next
    case (failed txs c)
    with BatchSettled batchSettled_failed_eq [OF failed] show ?thesis by simp
  qed
next
  case (Frame now)
  then show ?thesis by (simp add: checkTime_def)
next
  case (Click now txStart)
  have g: "\<exists>xs. console w2 = console w1 @ xs" if "getNextTransaction acct w1 = Inr (tx, w2)"
    for w1 tx w2
    using that
    by (auto simp: getNextTransaction_def Let_def preSignBatch_def split: if_splits)
  show ?thesis
  proof (cases "isReady w \<and> gameState w = READY")
    case False
    with Click show ?thesis by (auto simp: handleClick_def startRound_def clearTimers_def)
  next
    case True
    let ?w0 = "w\<lparr>clickTimeRef := now, gameState := CLICKED\<rparr>"
    show ?thesis
    proof (cases "getNextTransaction acct ?w0")
      case (Inl err)
      with True Click show ?thesis
        by (simp add: handleClick_ready handleClick_catch_def nextRound_def startRound_def
            clearTimers_def)
    next
      case (Inr r)
      obtain tx w2 where r: "r = (tx, w2)" by (cases r)
      with Inr g [of ?w0 tx w2] True Click show ?thesis
        by (auto simp: handleClick_ready)
    qed
  qed
next
  case (BroadcastSettled r)
  then show ?thesis
    by (auto simp: broadcastSettled_def handleClick_catch_def nextRound_def startRound_def
        clearTimers_def Let_def split: option.splits)
qed

lemma console_keeps_run: "x \<in> set (console w) \<Longrightarrow> x \<in> set (console (run acct evs w))"
proof (induction evs arbitrary: w)
  case Nil
  then show ?case by simp
next
  case (Cons e evs)
  from console_grows_step [of acct e w] Cons.prems have "x \<in> set (console (step acct e w))"
    by auto
  from Cons.IH [OF this] show ?case by simp
qed

lemma init_failure_step:
  assumes "initInv w" and "ownPendingAt w k" and "initFailure f k (job (promises w ! k))"
  shows "step acct f w
     = w\<lparr>promises := (promises w)[k := (promises w ! k)\<lparr>state := Rejected\<rparr>],
         console := console w @ [FailedToInitialize]\<rparr>"
proof -
  from assms(2) have k: "k < length (promises w)" "state (promises w ! k) = Pending"
    by (simp_all add: ownPendingAt_def)
  show ?thesis
  proof (cases "job (promises w ! k)")
    case (Queries m)
    with assms(3) have f: "f = QueriesSettled k None"
      by (cases "(f, k, Queries m)" rule: initFailure.cases) auto
    with k Queries show ?thesis
      by (simp add: queriesSettled_def settle_def Let_def)
  next
    case (EstimateGas m n)
    with assms(3) have f: "f = EstimateSettled k None"
      by (cases "(f, k, EstimateGas m n)" rule: initFailure.cases) auto
    with k EstimateGas show ?thesis
      by (simp add: estimateSettled_def settle_def Let_def)
  next
    case (SignBatch txs c)
    from assms(2) SignBatch obtain m where c: "c = InitCont m"
      by (cases c) (simp_all add: ownPendingAt_def)
    with assms(3) SignBatch obtain sign where f: "f = BatchSettled k sign"
      and s: "\<exists>t \<in> set txs. sign t = None"
      by (cases "(f, k, SignBatch txs (InitCont m))" rule: initFailure.cases) auto
    from batchSettled_failed_eq [OF k SignBatch s] f c show ?thesis by simp
  qed
qed

lemma notReady_after_failure:
  assumes "initInv w" and "ownPendingAt w k"
    and "w1 = w\<lparr>promises := (promises w)[k := (promises w ! k)\<lparr>state := Rejected\<rparr>],
              console := console w @ [FailedToInitialize]\<rparr>"
  shows "notReady w1"
proof -
  from assms(2) have k: "k < length (promises w)" "state (promises w ! k) = Pending"
    by (simp_all add: ownPendingAt_def)
  from initInvD(2) [OF assms(1), of k] assms(2) have r: "\<not> isReady w" by blast
  have "ownPendingAt w1 i \<longleftrightarrow> ownPendingAt w i \<and> i \<noteq> k" for i
    using k by (auto simp: assms(3) ownPendingAt_def nth_list_update)
  with initInvD(1) [OF assms(1) _ assms(2)] have "\<not> ownPendingAt w1 i" for i by blast
  with r show ?thesis by (simp add: notReady_def assms(3))
qed

text \<open>
  Claim C8. When a start-up query, the gas estimate or a signing of the initial batch of the
  mounted instance fails, \<^verbatim>\<open>init\<close> logs the failure and starts nothing new, the pool is
  left as it was, and as long as the page is not entered anew the instance never becomes
  ready: no promise of its \<^verbatim>\<open>init\<close> is pending any more, the message stays
  \<^verbatim>\<open>INITIALIZING...\<close>, and a click changes nothing.
\<close>

theorem init_failure_not_ready:
  assumes "w = run acct evs initialWorld"
    and "ownPendingAt w k" and "initFailure f k (job (promises w ! k))"
    and "Mount \<notin> set evs'"
    and "w1 = step acct f w" and "w' = run acct evs' w1"
  shows "console w1 = console w @ [FailedToInitialize]
     \<and> length (promises w1) = length (promises w)
     \<and> preSignedPool w1 = preSignedPool w
     \<and> \<not> isReady w'
     \<and> (\<forall>i. \<not> ownPendingAt w' i)
     \<and> getMessage w' = ''INITIALIZING...''
     \<and> (\<forall>now txStart. handleClick acct now txStart w' = w')
     \<and> FailedToInitialize \<in> set (console w')"
proof -
  from assms(1) have i: "initInv w" by (simp add: initInv_run initInv_initial)
  note s = init_failure_step [OF i assms(2,3), of acct]
  with assms(5) have w1: "w1 = w\<lparr>promises := (promises w)[k := (promises w ! k)\<lparr>state := Rejected\<rparr>],
         console := console w @ [FailedToInitialize]\<rparr>"
    by simp
  from notReady_after_failure [OF i assms(2) w1] have "notReady w1" .
  from notReady_run [OF this assms(4), of acct] assms(6) have n: "notReady w'" by simp
  from w1 have "FailedToInitialize \<in> set (console w1)" by simp
  from console_keeps_run [OF this, of acct evs'] assms(6)
  have c: "FailedToInitialize \<in> set (console w')" by simp
  from n have r: "\<not> isReady w'" by (simp add: notReady_def)
  then have "getMessage w' = ''INITIALIZING...''" by (simp add: getMessage_def)
  with n r c show ?thesis by (simp add: w1 notReady_def handleClick_notReady)
qed

lemma estimatedWorld_eq:
  "estimatedWorld = \<lparr>preSignedPool =
        \<lparr>transactions = [], currentIndex = 0, baseNonce = 100, hasTriggeredRefill = False\<rparr>,
      gasPrice = 7, gasLimit = 21000, mountId = 1,
      gameState = IDLE, currentRound = 0, results = [], isReady = False,
      greenTimeRef = 0, clickTimeRef = 0, animFrameRef = False,
      promises = [\<lparr>job = Queries 1, state = Fulfilled\<rparr>,
                  \<lparr>job = EstimateGas 1 100, state = Fulfilled\<rparr>,
                  \<lparr>job = SignBatch (map (txDataFor ''0xA'' 7 21000 100) [0..<10]) (InitCont 1),
                    state = Pending\<rparr>],
      suspended = None,
      console = [GasEstimated 21000]\<rparr>"
  by (simp add: estimatedWorld_def initialWorld_def mount_def queriesSettled_def
      estimateSettled_def settle_def preSignBatch_def Let_def del: upt.simps upt_rec_numeral)

theorem init_failure_not_ready_witness:
  "ownPendingAt estimatedWorld 2
   \<and> initFailure (BatchSettled 2 failingSigner) 2 (job (promises estimatedWorld ! 2))
   \<and> Mount \<notin> set [Click 5 6, Frame 7, Click 8 9]
   \<and> console (step ''0xA'' (BatchSettled 2 failingSigner) estimatedWorld)
       = [GasEstimated 21000, FailedToInitialize]
   \<and> \<not> isReady (run ''0xA'' [Click 5 6, Frame 7, Click 8 9]
         (step ''0xA'' (BatchSettled 2 failingSigner) estimatedWorld))
   \<and> getMessage (run ''0xA'' [Click 5 6, Frame 7, Click 8 9]
         (step ''0xA'' (BatchSettled 2 failingSigner) estimatedWorld)) = ''INITIALIZING...''
   \<and> transactions (preSignedPool (step ''0xA'' (BatchSettled 2 failingSigner) estimatedWorld)) = []"
proof -
  have o: "ownPendingAt estimatedWorld 2"
    by (simp add: ownPendingAt_def estimatedWorld_eq)
  have f: "initFailure (BatchSettled 2 failingSigner) 2 (job (promises estimatedWorld ! 2))"
    by (simp add: estimatedWorld_eq failingSigner_def)
  have m: "Mount \<notin> set [Click 5 6, Frame 7, Click 8 9]" by simp
  have c: "console estimatedWorld = [GasEstimated 21000]"
    "transactions (preSignedPool estimatedWorld) = []"
    by (simp_all add: estimatedWorld_eq)
  from init_failure_not_ready [OF estimatedWorld_def o f m refl refl] o f m c
  show ?thesis by simp
qed

subsection \<open>The refills along a run\<close>

lemma quietStep_same:
  "preSignedPool w' = preSignedPool w \<Longrightarrow> promises w' = promises w \<Longrightarrow> quietStep w w'"
  by (simp add: quietStep_def)

lemma quietStep_settle:
  assumes "hasTriggeredRefill (preSignedPool w') = hasTriggeredRefill (preSignedPool w)"
    and "transactions (preSignedPool w') = transactions (preSignedPool w) @ xs"
    and "promises w' = (promises w)[k := (promises w ! k)\<lparr>state := st\<rparr>] @ qs"
    and "k < length (promises w)" and "\<not> isRefill (promises w ! k)"
    and "\<forall>q \<in> set qs. \<not> isRefill q"
  shows "quietStep w w'"
  unfolding quietStep_def
proof (intro conjI allI impI)
  show "hasTriggeredRefill (preSignedPool w') = hasTriggeredRefill (preSignedPool w)"
    by (rule assms(1))
  show "\<exists>xs. transactions (preSignedPool w') = transactions (preSignedPool w) @ xs"
    using assms(2) by blast
  show "length (promises w) \<le> length (promises w')" by (simp add: assms(3))
next
  fix i
  assume "i < length (promises w)" "isRefill (promises w ! i)"
  with assms(5) show "promises w' ! i = promises w ! i"
    by (cases "i = k") (simp_all add: assms(3) nth_append)
next
  fix i
  assume i: "i < length (promises w')" and r: "isRefill (promises w' ! i)"
  have l: "i < length (promises w)"
  proof (rule ccontr)
    assume "\<not> i < length (promises w)"
    with i have "promises w' ! i \<in> set qs" by (simp add: assms(3) nth_append)
    with assms(6) r show False by blast
  qed
  then show "i < length (promises w)" .
  from l r assms(4,5) show "isRefill (promises w ! i)"
    by (cases "i = k") (simp_all add: assms(3) nth_append)
qed

lemma quietStep_append:
  assumes "hasTriggeredRefill (preSignedPool w') = hasTriggeredRefill (preSignedPool w)"
    and "transactions (preSignedPool w') = transactions (preSignedPool w) @ xs"
    and "promises w' = promises w @ qs" and "\<forall>q \<in> set qs. \<not> isRefill q"
  shows "quietStep w w'"
  unfolding quietStep_def
proof (intro conjI allI impI)
  show "hasTriggeredRefill (preSignedPool w') = hasTriggeredRefill (preSignedPool w)"
    by (rule assms(1))
  show "\<exists>xs. transactions (preSignedPool w') = transactions (preSignedPool w) @ xs"
    using assms(2) by blast
  show "length (promises w) \<le> length (promises w')" by (simp add: assms(3))
next
  fix i
  assume "i < length (promises w)" "isRefill (promises w ! i)"
  then show "promises w' ! i = promises w ! i" by (simp add: assms(3) nth_append)
next
  fix i
  assume i: "i < length (promises w')" and r: "isRefill (promises w' ! i)"
  have l: "i < length (promises w)"
  proof (rule ccontr)
    assume "\<not> i < length (promises w)"
    with i have "promises w' ! i \<in> set qs" by (simp add: assms(3) nth_append)
    with assms(4) r show False by blast
  qed
  then show "i < length (promises w)" .
  from l r show "isRefill (promises w ! i)" by (simp add: assms(3) nth_append)
qed

lemma trigger_cong:
  "preSignedPool w1 = preSignedPool w \<Longrightarrow> gasPrice w1 = gasPrice w \<Longrightarrow> gasLimit w1 = gasLimit w
     \<Longrightarrow> trigger acct w1 = trigger acct w"
  by (simp add: trigger_def)

lemma refillStep_mount: "refillStep acct w (mount w)"
  unfolding refillStep_def
  by (rule disjI1, rule quietStep_append [where xs = "[]"
        and qs = "[\<lparr>job = Queries (mountId w + 1), state = Pending\<rparr>]"])
     (simp_all add: mount_def)

lemma refillStep_queriesSettled: "refillStep acct w (queriesSettled k r w)"
proof (cases rule: queriesSettled_cases [of k r w])
  case none
  then show ?thesis by (simp add: refillStep_def quietStep_same)
next
  case (ok m nonce gas)
  show ?thesis
    unfolding refillStep_def
    by (rule disjI1, rule quietStep_settle [where xs = "[]" and k = k and st = Fulfilled
          and qs = "[\<lparr>job = EstimateGas m nonce, state = Pending\<rparr>]"])
       (simp_all add: ok(1,2,3,5))
next
  case (failed m)
  show ?thesis
    unfolding refillStep_def
    by (rule disjI1, rule quietStep_settle [where xs = "[]" and k = k and st = Rejected
          and qs = "[]"])
       (simp_all add: failed(1,2,3,5))
qed

lemma refillStep_estimateSettled: "refillStep acct w (estimateSettled acct k r w)"
proof (cases rule: estimateSettled_cases [of acct k r w])
  case none
  then show ?thesis by (simp add: refillStep_def quietStep_same)
next
  case (ok m nonce g)
  show ?thesis
    unfolding refillStep_def
    by (rule disjI1, rule quietStep_settle [where xs = "[]" and k = k and st = Fulfilled
          and qs = "[\<lparr>job = SignBatch (map (txDataFor acct (gasPrice w) g nonce) [0..<10])
             (InitCont m), state = Pending\<rparr>]"])
       (simp_all add: ok(1,2,3,5) del: upt.simps upt_rec_numeral)
next
  case (failed m nonce)
  show ?thesis
    unfolding refillStep_def
    by (rule disjI1, rule quietStep_settle [where xs = "[]" and k = k and st = Rejected
          and qs = "[]"])
       (simp_all add: failed(1,2,3,5))
qed

lemma refillStep_batchSettled: "refillStep acct w (batchSettled k sign w)"
proof (cases rule: batchSettled_cases [of k sign w])
  case none
  then show ?thesis by (simp add: refillStep_def quietStep_same)
next
  case (ok txs c)
  note eq = batchSettled_ok_eq [OF ok]
  show ?thesis
  proof (cases c)
    case RefillCont
    have "fulfilStep w (batchSettled k sign w)"
      unfolding fulfilStep_def
      by (rule exI [of _ k], rule exI [of _ txs], rule exI [of _ "map (sealed sign) txs"])
         (use ok RefillCont in \<open>simp add: eq\<close>)
    then show ?thesis by (simp add: refillStep_def)
  next
    case (InitCont m)
    have "quietStep w (batchSettled k sign w)"
      by (rule quietStep_settle [where xs = "map (sealed sign) txs" and k = k and st = Fulfilled
            and qs = "[]"])
         (use ok InitCont in \<open>simp_all add: eq\<close>)
    then show ?thesis by (simp add: refillStep_def)
  qed
next
  case (failed txs c)
  note eq = batchSettled_failed_eq [OF failed]
  show ?thesis
  proof (cases c)
    case RefillCont
    have "rejectStep w (batchSettled k sign w)"
      unfolding rejectStep_def
      by (rule exI [of _ k], rule exI [of _ txs]) (use failed RefillCont in \<open>simp add: eq\<close>)
    then show ?thesis by (simp add: refillStep_def)
  next
    case (InitCont m)
    have "quietStep w (batchSettled k sign w)"
      by (rule quietStep_settle [where xs = "[]" and k = k and st = Rejected and qs = "[]"])
         (use failed InitCont in \<open>simp_all add: eq\<close>)
    then show ?thesis by (simp add: refillStep_def)
  qed
qed

lemma refillStep_take:
  assumes "getNextTransaction acct w1 = Inr (tx, w2)"
    and "preSignedPool w1 = preSignedPool w" and "promises w1 = promises w"
    and "gasPrice w1 = gasPrice w" and "gasLimit w1 = gasLimit w"
    and "preSignedPool w' = preSignedPool w2" and "promises w' = promises w2"
  shows "refillStep acct w w'"
proof (cases "(currentIndex (preSignedPool w1) + 1) mod 5 = 0
    \<and> \<not> hasTriggeredRefill (preSignedPool w1)")
  case True
  note g = getNextTransaction_Inr [OF assms(1)]
  from True g(3,5,6,7) assms(2-7) trigger_cong [OF assms(2,4,5), of acct]
  have "triggerStep acct w w'" by (simp add: triggerStep_def)
  then show ?thesis by (simp add: refillStep_def)
next
  case False
  note g = getNextTransaction_Inr [OF assms(1)]
  from False g(6) have "hasTriggeredRefill (preSignedPool w2) = hasTriggeredRefill (preSignedPool w1)"
    by auto
  moreover from False g(7) have "promises w2 = promises w1" by auto
  ultimately have "quietStep w w'" using g(3) assms(2-7)
    by (intro quietStep_append [where xs = "[]" and qs = "[]"]) simp_all
  then show ?thesis by (simp add: refillStep_def)
qed

lemma refillStep_handleClick: "refillStep acct w (handleClick acct now txStart w)"
proof (cases rule: handleClick_pool_cases [of acct now txStart w])
  case same
  then show ?thesis by (simp add: refillStep_def quietStep_same)
next
  case (take tx w1 w2)
  from take(5,1,2,3,4,6,7) show ?thesis by (rule refillStep_take)
qed

lemma refillStep_quiet:
  "preSignedPool w' = preSignedPool w \<Longrightarrow> promises w' = promises w \<Longrightarrow> refillStep acct w w'"
  by (simp add: refillStep_def quietStep_same)

lemma refillStep_step: "refillStep acct w (step acct e w)"
  by (cases e)
     (simp_all add: refillStep_mount refillStep_queriesSettled refillStep_estimateSettled
       refillStep_batchSettled refillStep_handleClick refillStep_quiet)

lemma guardInvI:
  assumes "\<And>i. \<not> hasTriggeredRefill (preSignedPool w) \<Longrightarrow> refillAt w i
             \<Longrightarrow> state (promises w ! i) = Fulfilled"
    and "\<And>i j. refillAt w i \<Longrightarrow> refillAt w j \<Longrightarrow> state (promises w ! i) \<noteq> Fulfilled
             \<Longrightarrow> state (promises w ! j) \<noteq> Fulfilled \<Longrightarrow> i = j"
  shows "guardInv w"
  unfolding guardInv_def using assms by blast

lemma guardInvD:
  assumes "guardInv w"
  shows "\<not> hasTriggeredRefill (preSignedPool w) \<Longrightarrow> refillAt w i
             \<Longrightarrow> state (promises w ! i) = Fulfilled"
    and "refillAt w i \<Longrightarrow> refillAt w j \<Longrightarrow> state (promises w ! i) \<noteq> Fulfilled
             \<Longrightarrow> state (promises w ! j) \<noteq> Fulfilled \<Longrightarrow> i = j"
  using assms unfolding guardInv_def by blast+

lemma isRefill_state [simp]: "isRefill (p\<lparr>state := st\<rparr>) = isRefill p"
  by simp

lemma refillAt_quiet:
  assumes "quietStep w w'"
  shows "refillAt w' i \<longleftrightarrow> refillAt w i" and "refillAt w i \<Longrightarrow> promises w' ! i = promises w ! i"
proof -
  from assms have l: "length (promises w) \<le> length (promises w')"
    and a: "\<And>i. i < length (promises w) \<Longrightarrow> isRefill (promises w ! i)
              \<Longrightarrow> promises w' ! i = promises w ! i"
    and b: "\<And>i. i < length (promises w') \<Longrightarrow> isRefill (promises w' ! i)
              \<Longrightarrow> i < length (promises w) \<and> isRefill (promises w ! i)"
    unfolding quietStep_def by blast+
  show "refillAt w' i \<longleftrightarrow> refillAt w i"
  proof
    assume "refillAt w' i"
    with b [of i] show "refillAt w i" by (simp add: refillAt_def)
  next
    assume r: "refillAt w i"
    with a [of i] l show "refillAt w' i" by (simp add: refillAt_def)
  qed
  show "refillAt w i \<Longrightarrow> promises w' ! i = promises w ! i"
    using a [of i] by (simp add: refillAt_def)
qed

lemma refillAt_trigger:
  assumes "triggerStep acct w w'"
  shows "refillAt w' i \<longleftrightarrow> refillAt w i \<or> i = length (promises w)"
    and "i < length (promises w) \<Longrightarrow> promises w' ! i = promises w ! i"
    and "promises w' ! length (promises w) = hd (trigger acct w)"
  using assms by (auto simp: triggerStep_def refillAt_def trigger_def nth_append)

lemma refillAt_settled:
  assumes "promises w' = (promises w)[k := (promises w ! k)\<lparr>state := st\<rparr>]"
  shows "refillAt w' i \<longleftrightarrow> refillAt w i"
  using assms by (cases "i = k") (auto simp: refillAt_def nth_list_update)

lemma guardInv_quiet:
  assumes "guardInv w" and "quietStep w w'"
  shows "guardInv w'"
proof -
  note r = refillAt_quiet [OF assms(2)]
  from assms(2) have g: "hasTriggeredRefill (preSignedPool w') = hasTriggeredRefill (preSignedPool w)"
    by (simp add: quietStep_def)
  show ?thesis
  proof (rule guardInvI)
    fix i
    assume "\<not> hasTriggeredRefill (preSignedPool w')" "refillAt w' i"
    with guardInvD(1) [OF assms(1), of i] r g show "state (promises w' ! i) = Fulfilled"
      by simp
  next
    fix i j
    assume "refillAt w' i" "refillAt w' j" "state (promises w' ! i) \<noteq> Fulfilled"
      "state (promises w' ! j) \<noteq> Fulfilled"
    with guardInvD(2) [OF assms(1), of i j] r show "i = j" by simp
  qed
qed

lemma guardInv_trigger:
  assumes "guardInv w" and "triggerStep acct w w'"
  shows "guardInv w'"
proof -
  note r = refillAt_trigger [OF assms(2)]
  from assms(2) have g: "\<not> hasTriggeredRefill (preSignedPool w)"
    "hasTriggeredRefill (preSignedPool w')"
    by (simp_all add: triggerStep_def)
  have old: "state (promises w' ! i) = Fulfilled" if "refillAt w i" for i
    using that guardInvD(1) [OF assms(1) g(1) that] r(2) [of i] by (simp add: refillAt_def)
  show ?thesis
  proof (rule guardInvI)
    fix i
    assume "\<not> hasTriggeredRefill (preSignedPool w')"
    with g show "state (promises w' ! i) = Fulfilled" by simp
  next
    fix i j
    assume "refillAt w' i" "refillAt w' j" "state (promises w' ! i) \<noteq> Fulfilled"
      "state (promises w' ! j) \<noteq> Fulfilled"
    with old [of i] old [of j] show "i = j" unfolding r(1) by blast
  qed
qed

lemma guardInv_fulfil:
  assumes "guardInv w" and "fulfilStep w w'"
  shows "guardInv w'"
proof -
  from assms(2) obtain k txs where k: "k < length (promises w)"
    "job (promises w ! k) = SignBatch txs RefillCont" "state (promises w ! k) = Pending"
    and p: "promises w' = (promises w)[k := (promises w ! k)\<lparr>state := Fulfilled\<rparr>]"
    unfolding fulfilStep_def by blast
  note r = refillAt_settled [OF p]
  from k have rk: "refillAt w k" "state (promises w ! k) \<noteq> Fulfilled"
    by (simp_all add: refillAt_def)
  have all: "state (promises w' ! i) = Fulfilled" if "refillAt w' i" for i
  proof (cases "i = k")
    case True
    with k show ?thesis by (simp add: p)
  next
    case False
    from that have ri: "refillAt w i" by (simp add: r)
    with False guardInvD(2) [OF assms(1) ri rk(1) _ rk(2)]
    have "state (promises w ! i) = Fulfilled" by blast
    with False ri show ?thesis by (simp add: p refillAt_def)
  qed
  show ?thesis by (rule guardInvI) (use all in blast)+
qed

lemma guardInv_reject:
  assumes "guardInv w" and "rejectStep w w'"
  shows "guardInv w'"
proof -
  from assms(2) obtain k txs where k: "k < length (promises w)"
    "job (promises w ! k) = SignBatch txs RefillCont" "state (promises w ! k) = Pending"
    and p: "promises w' = (promises w)[k := (promises w ! k)\<lparr>state := Rejected\<rparr>]"
    and q: "preSignedPool w' = preSignedPool w"
    unfolding rejectStep_def by blast
  note r = refillAt_settled [OF p]
  from k have rk: "refillAt w k" "state (promises w ! k) \<noteq> Fulfilled"
    by (simp_all add: refillAt_def)
  from guardInvD(1) [OF assms(1) _ rk(1)] rk(2) have g: "hasTriggeredRefill (preSignedPool w)"
    by blast
  have s: "state (promises w' ! i) \<noteq> Fulfilled \<longleftrightarrow> state (promises w ! i) \<noteq> Fulfilled"
    if "refillAt w i" for i
    using that k by (cases "i = k") (simp_all add: p refillAt_def)
  show ?thesis
  proof (rule guardInvI)
    fix i
    assume "\<not> hasTriggeredRefill (preSignedPool w')"
    with g q show "state (promises w' ! i) = Fulfilled" by simp
  next
    fix i j
    assume "refillAt w' i" "refillAt w' j" "state (promises w' ! i) \<noteq> Fulfilled"
      "state (promises w' ! j) \<noteq> Fulfilled"
    with guardInvD(2) [OF assms(1), of i j] s [of i] s [of j] show "i = j" by (simp add: r)
  qed
qed

lemma guardInv_step: "guardInv w \<Longrightarrow> guardInv (step acct e w)"
  using refillStep_step [of acct w e]
  by (auto simp: refillStep_def
      intro: guardInv_quiet guardInv_trigger guardInv_fulfil guardInv_reject)

lemma guardInv_run: "guardInv w \<Longrightarrow> guardInv (run acct evs w)"
  by (induction evs arbitrary: w) (simp_all add: guardInv_step)

lemma guardInv_initial: "guardInv initialWorld"
  by (simp add: guardInv_def refillAt_def initialWorld_def)

lemma rangeInvI:
  assumes "\<And>i. refillAt w i \<Longrightarrow> batchSize (promises w ! i) = 10"
    and "\<And>i n. refillAt w i \<Longrightarrow> n \<in> nonces (promises w ! i)
           \<Longrightarrow> n < frontier w + (if state (promises w ! i) = Fulfilled then 0 else 10)"
    and "\<And>i j. refillAt w i \<Longrightarrow> refillAt w j \<Longrightarrow> i \<noteq> j
           \<Longrightarrow> nonces (promises w ! i) \<inter> nonces (promises w ! j) = {}"
  shows "rangeInv w"
  unfolding rangeInv_def using assms by blast

lemma rangeInvD:
  assumes "rangeInv w"
  shows "refillAt w i \<Longrightarrow> batchSize (promises w ! i) = 10"
    and "refillAt w i \<Longrightarrow> n \<in> nonces (promises w ! i)
           \<Longrightarrow> n < frontier w + (if state (promises w ! i) = Fulfilled then 0 else 10)"
    and "refillAt w i \<Longrightarrow> refillAt w j \<Longrightarrow> i \<noteq> j
           \<Longrightarrow> nonces (promises w ! i) \<inter> nonces (promises w ! j) = {}"
  using assms unfolding rangeInv_def by blast+

lemma nonces_state [simp]: "nonces (p\<lparr>state := st\<rparr>) = nonces p"
  and batchSize_state [simp]: "batchSize (p\<lparr>state := st\<rparr>) = batchSize p"
  by (simp_all add: nonces.simps batchSize.simps)

lemma trigger_range:
  "nonces (hd (trigger acct w)) = {frontier w ..< frontier w + 10}"
  "batchSize (hd (trigger acct w)) = 10"
  "state (hd (trigger acct w)) = Pending"
proof -
  have "tx_nonce ` set (map (txDataFor acct gp gl s) [0..<n]) = {s ..< s + n}" for gp gl s n
    using batch_nonces [of acct gp gl s n] by (metis list.set_map set_upt)
  then show "nonces (hd (trigger acct w)) = {frontier w ..< frontier w + 10}"
    by (simp add: trigger_def frontier_def nonces.simps del: upt.simps upt_rec_numeral set_map)
  show "batchSize (hd (trigger acct w)) = 10" "state (hd (trigger acct w)) = Pending"
    by (simp_all add: trigger_def batchSize.simps)
qed

lemma rangeInv_quiet:
  assumes "rangeInv w" and "quietStep w w'"
    and "baseNonce (preSignedPool w) \<le> baseNonce (preSignedPool w')"
  shows "rangeInv w'"
proof -
  note r = refillAt_quiet [OF assms(2)]
  from assms(2) obtain xs where "transactions (preSignedPool w') = transactions (preSignedPool w) @ xs"
    unfolding quietStep_def by blast
  with assms(3) have f: "frontier w \<le> frontier w'" by (simp add: frontier_def)
  show ?thesis
  proof (rule rangeInvI)
    fix i
    assume "refillAt w' i"
    with rangeInvD(1) [OF assms(1), of i] r show "batchSize (promises w' ! i) = 10" by simp
  next
    fix i n
    assume a: "refillAt w' i" "n \<in> nonces (promises w' ! i)"
    with r have "refillAt w i" "promises w' ! i = promises w ! i" by simp_all
    with a rangeInvD(2) [OF assms(1), of i n] f
    show "n < frontier w' + (if state (promises w' ! i) = Fulfilled then 0 else 10)"
      by (auto split: if_splits)
  next
    fix i j
    assume "refillAt w' i" "refillAt w' j" "i \<noteq> j"
    with rangeInvD(3) [OF assms(1), of i j] r
    show "nonces (promises w' ! i) \<inter> nonces (promises w' ! j) = {}" by simp
  qed
qed

lemma rangeInv_trigger:
  assumes "rangeInv w" and "guardInv w" and "triggerStep acct w w'"
  shows "rangeInv w'"
proof -
  note r = refillAt_trigger [OF assms(3)]
  note t = trigger_range [of acct w]
  from assms(3) have g: "\<not> hasTriggeredRefill (preSignedPool w)"
    and f: "frontier w' = frontier w"
    by (simp_all add: triggerStep_def frontier_def)
  have old: "promises w' ! i = promises w ! i \<and> state (promises w ! i) = Fulfilled
      \<and> batchSize (promises w ! i) = 10 \<and> (\<forall>n \<in> nonces (promises w ! i). n < frontier w)"
    if "refillAt w i" for i
    using that guardInvD(1) [OF assms(2) g that] r(2) [of i] rangeInvD(1,2) [OF assms(1) that]
    by (auto simp: refillAt_def)
  have new: "nonces (promises w' ! length (promises w)) = {frontier w ..< frontier w + 10}"
    "batchSize (promises w' ! length (promises w)) = 10"
    "state (promises w' ! length (promises w)) = Pending"
    by (simp_all add: r(3) t)
  have notold: "\<not> refillAt w (length (promises w))" by (simp add: refillAt_def)
  show ?thesis
  proof (rule rangeInvI)
    fix i
    assume "refillAt w' i"
    then show "batchSize (promises w' ! i) = 10" using old [of i] new(2) unfolding r(1) by auto
  next
    fix i n
    assume "refillAt w' i" "n \<in> nonces (promises w' ! i)"
    then show "n < frontier w' + (if state (promises w' ! i) = Fulfilled then 0 else 10)"
      using old [of i] new unfolding r(1) f by auto
  next
    fix i j
    assume a: "refillAt w' i" "refillAt w' j" "i \<noteq> j"
    from a(1) consider "refillAt w i" | "i = length (promises w)" unfolding r(1) by blast
    then show "nonces (promises w' ! i) \<inter> nonces (promises w' ! j) = {}"
    proof cases
      case 1
      from a(2) consider "refillAt w j" | "j = length (promises w)" unfolding r(1) by blast
      then show ?thesis
      proof cases
        case 1
        with \<open>refillAt w i\<close> a(3) rangeInvD(3) [OF assms(1), of i j] old [of i] old [of j]
        show ?thesis by simp
      next
        case 2
        with \<open>refillAt w i\<close> old [of i] new(1) show ?thesis by fastforce
      qed
    next
      case 2
      with a(2,3) have "refillAt w j" unfolding r(1) by blast
      with 2 old [of j] new(1) show ?thesis by fastforce
    qed
  qed
qed

lemma rangeInv_settled:
  assumes "rangeInv w" and "k < length (promises w)"
    and "job (promises w ! k) = SignBatch txs RefillCont"
    and "promises w' = (promises w)[k := (promises w ! k)\<lparr>state := st\<rparr>]"
    and "frontier w' = frontier w + (if st = Fulfilled then 10 else 0)"
  shows "rangeInv w'"
proof -
  note r = refillAt_settled [OF assms(4)]
  have p: "nonces (promises w' ! i) = nonces (promises w ! i)"
    "batchSize (promises w' ! i) = batchSize (promises w ! i)"
    "state (promises w' ! i) = (if i = k then st else state (promises w ! i))"
    if "i < length (promises w)" for i
    using that assms(2) by (cases "i = k"; simp add: assms(4))+
  show ?thesis
  proof (rule rangeInvI)
    fix i
    assume "refillAt w' i"
    then have "refillAt w i" by (simp add: r)
    with rangeInvD(1) [OF assms(1) this] p(2) [of i] show "batchSize (promises w' ! i) = 10"
      by (simp add: refillAt_def)
  next
    fix i n
    assume a: "refillAt w' i" "n \<in> nonces (promises w' ! i)"
    then have ri: "refillAt w i" by (simp add: r)
    then have i: "i < length (promises w)" by (simp add: refillAt_def)
    from a(2) p(1) [OF i] have "n \<in> nonces (promises w ! i)" by simp
    from rangeInvD(2) [OF assms(1) ri this] p(3) [OF i] assms(5)
    show "n < frontier w' + (if state (promises w' ! i) = Fulfilled then 0 else 10)"
      by (auto split: if_splits)
  next
    fix i j
    assume a: "refillAt w' i" "refillAt w' j" "i \<noteq> j"
    then have "refillAt w i" "refillAt w j" by (simp_all add: r)
    with a(3) rangeInvD(3) [OF assms(1), of i j] p(1) [of i] p(1) [of j]
    show "nonces (promises w' ! i) \<inter> nonces (promises w' ! j) = {}"
      by (simp add: refillAt_def)
  qed
qed

lemma rangeInv_fulfil:
  assumes "rangeInv w" and "fulfilStep w w'"
  shows "rangeInv w'"
proof -
  from assms(2) obtain k txs xs where k: "k < length (promises w)"
    "job (promises w ! k) = SignBatch txs RefillCont"
    and p: "promises w' = (promises w)[k := (promises w ! k)\<lparr>state := Fulfilled\<rparr>]"
    and t: "transactions (preSignedPool w') = transactions (preSignedPool w) @ xs"
      "length xs = length txs" "baseNonce (preSignedPool w') = baseNonce (preSignedPool w)"
    unfolding fulfilStep_def by blast
  from k have "refillAt w k" by (simp add: refillAt_def)
  from rangeInvD(1) [OF assms(1) this] k(2) have "length txs = 10" by (simp add: batchSize.simps)
  with t have "frontier w' = frontier w + (if Fulfilled = Fulfilled then 10 else 0)"
    by (simp add: frontier_def)
  from rangeInv_settled [OF assms(1) k p this] show ?thesis .
qed

lemma rangeInv_reject:
  assumes "rangeInv w" and "rejectStep w w'"
  shows "rangeInv w'"
proof -
  from assms(2) obtain k txs where k: "k < length (promises w)"
    "job (promises w ! k) = SignBatch txs RefillCont"
    and p: "promises w' = (promises w)[k := (promises w ! k)\<lparr>state := Rejected\<rparr>]"
    and q: "preSignedPool w' = preSignedPool w"
    unfolding rejectStep_def by blast
  from q have "frontier w' = frontier w + (if Rejected = Fulfilled then 10 else 0)"
    by (simp add: frontier_def)
  from rangeInv_settled [OF assms(1) k p this] show ?thesis .
qed

lemma rangeInv_step:
  assumes "rangeInv w" and "guardInv w"
    and "baseNonce (preSignedPool w) \<le> baseNonce (preSignedPool (step acct e w))"
  shows "rangeInv (step acct e w)"
  using refillStep_step [of acct w e] assms
  by (auto simp: refillStep_def
      intro: rangeInv_quiet rangeInv_trigger rangeInv_fulfil rangeInv_reject)

lemma rangeInv_run:
  "rangeInv w \<Longrightarrow> guardInv w \<Longrightarrow> baseMonotone acct evs w \<Longrightarrow> rangeInv (run acct evs w)"
proof (induction evs arbitrary: w)
  case Nil
  then show ?case by simp
next
  case (Cons e evs)
  from Cons.prems have "rangeInv (step acct e w)" by (simp add: rangeInv_step)
  moreover from Cons.prems have "guardInv (step acct e w)" by (simp add: guardInv_step)
  ultimately show ?case using Cons.IH Cons.prems(3) by simp
qed

lemma rangeInv_initial: "rangeInv initialWorld"
  by (simp add: rangeInv_def refillAt_def initialWorld_def)

subsection \<open>The start of a refill and the refills in flight\<close>

lemma refillInFlight_iff:
  "refillInFlight w \<longleftrightarrow> (\<exists>i. refillAt w i \<and> state (promises w ! i) = Pending)"
  by (auto simp: refillInFlight_def refills_def refillAt_def in_set_conv_nth)

text \<open>
  Claim C3 fails on the code in one direction. A call of \<^verbatim>\<open>getNextTransaction\<close> that
  returns advances the cursor by one and starts a refill, one promise for a batch of ten,
  exactly when the new cursor is a multiple of five and the flag \<^verbatim>\<open>hasTriggeredRefill\<close>
  was clear; the batch carries the sequence numbers from
  \<^verbatim>\<open>baseNonce + transactions.length\<close> of the moment of the call on, and no later step
  changes the job of a promise. From the primed world, whose initial batch of ten starts at
  \<open>N\<close>, five calls return the sequence numbers \<open>N\<close> to \<open>N + 4\<close> and start exactly one
  refill, of ten entries from \<open>N + 10\<close> on. In a world that a run reaches, a refill in
  flight has the flag set, so a call that starts a refill has a new cursor that is a
  multiple of five and finds no refill in flight. The converse fails: the flag is what the
  code tests, and once the flag is set with no refill in flight, as a rejected refill
  leaves it, a call starts no refill, whatever multiple of five the new cursor is.
\<close>

theorem refill_trigger:
  "(\<forall>tx w'. getNextTransaction acct w = Inr (tx, w') \<longrightarrow>
       currentIndex (preSignedPool w') = currentIndex (preSignedPool w) + 1
     \<and> promises w' = promises w @
         (if currentIndex (preSignedPool w') mod 5 = 0 \<and> \<not> hasTriggeredRefill (preSignedPool w)
          then trigger acct w else [])
     \<and> (\<forall>es k. k < length (promises w') \<longrightarrow>
            job (promises (run acct es w') ! k) = job (promises w' ! k)))
   \<and> (\<exists>txs. trigger acct w = [\<lparr>job = SignBatch txs RefillCont, state = Pending\<rparr>]
         \<and> length txs = 10
         \<and> map tx_nonce txs
            = [baseNonce (preSignedPool w) + length (transactions (preSignedPool w))
                 ..< baseNonce (preSignedPool w) + length (transactions (preSignedPool w)) + 10])
   \<and> ((\<forall>t. sign t \<noteq> None) \<longrightarrow>
         (\<exists>txs w5 b. takeN acct 5 (primedWorld acct N gas gl sign) = Inr (txs, w5)
            \<and> map (\<lambda>t. tx_nonce (payload (the t))) txs = [N, N + 1, N + 2, N + 3, N + 4]
            \<and> refills w5 = [\<lparr>job = SignBatch b RefillCont, state = Pending\<rparr>]
            \<and> length b = 10
            \<and> map tx_nonce b = [N + 10 ..< N + 20]))
   \<and> (w = run acct evs initialWorld \<longrightarrow>
         (refillInFlight w \<longrightarrow> hasTriggeredRefill (preSignedPool w))
       \<and> (\<forall>tx w'. getNextTransaction acct w = Inr (tx, w') \<and> promises w' \<noteq> promises w \<longrightarrow>
              currentIndex (preSignedPool w') mod 5 = 0 \<and> \<not> refillInFlight w))
   \<and> (hasTriggeredRefill (preSignedPool w) \<and> \<not> refillInFlight w \<longrightarrow>
         (\<forall>tx w'. getNextTransaction acct w = Inr (tx, w') \<longrightarrow> promises w' = promises w))"
proof -
  have 1: "currentIndex (preSignedPool w') = currentIndex (preSignedPool w) + 1
     \<and> promises w' = promises w @
         (if currentIndex (preSignedPool w') mod 5 = 0 \<and> \<not> hasTriggeredRefill (preSignedPool w)
          then trigger acct w else [])
     \<and> (\<forall>es k. k < length (promises w') \<longrightarrow>
            job (promises (run acct es w') ! k) = job (promises w' ! k))"
    if g: "getNextTransaction acct w = Inr (tx, w')" for tx w'
    using getNextTransaction_Inr(4,7) [OF g] by (simp add: job_run)
  have 3: "\<exists>txs w5 b. takeN acct 5 (primedWorld acct N gas gl sign) = Inr (txs, w5)
            \<and> map (\<lambda>t. tx_nonce (payload (the t))) txs = [N, N + 1, N + 2, N + 3, N + 4]
            \<and> refills w5 = [\<lparr>job = SignBatch b RefillCont, state = Pending\<rparr>]
            \<and> length b = 10
            \<and> map tx_nonce b = [N + 10 ..< N + 20]"
    if s: "\<forall>t. sign t \<noteq> None"
  proof -
    from takeN_5_primed [OF s, of acct N gas gl] obtain w5 where
      t: "takeN acct 5 (primedWorld acct N gas gl sign)
           = Inr (map (\<lambda>i. Some (sealed sign (txDataFor acct gas gl N i))) [0, 1, 2, 3, 4], w5)"
      and r: "refills w5
           = [\<lparr>job = SignBatch (map (txDataFor acct gas gl (N + 10)) [0..<10]) RefillCont,
                state = Pending\<rparr>]"
      by blast
    have "map (\<lambda>t. tx_nonce (payload (the t)))
            (map (\<lambda>i. Some (sealed sign (txDataFor acct gas gl N i))) [0, 1, 2, 3, 4])
          = [N, N + 1, N + 2, N + 3, N + 4]"
      by (simp add: sealed_def txDataFor_def)
    moreover have "map tx_nonce (map (txDataFor acct gas gl (N + 10)) [0..<10]) = [N + 10 ..< N + 20]"
      by (simp add: batch_nonces [unfolded map_map] ac_simps del: upt.simps upt_rec_numeral)
    moreover have "length (map (txDataFor acct gas gl (N + 10)) [0..<10]) = 10" by simp
    ultimately show ?thesis using t r
      by (intro exI [of _ "map (\<lambda>i. Some (sealed sign (txDataFor acct gas gl N i))) [0, 1, 2, 3, 4]"]
          exI [of _ w5] exI [of _ "map (txDataFor acct gas gl (N + 10)) [0..<10]"] conjI)
  qed
  have 4: "(refillInFlight w \<longrightarrow> hasTriggeredRefill (preSignedPool w))
       \<and> (\<forall>tx w'. getNextTransaction acct w = Inr (tx, w') \<and> promises w' \<noteq> promises w \<longrightarrow>
              currentIndex (preSignedPool w') mod 5 = 0 \<and> \<not> refillInFlight w)"
    if r: "w = run acct evs initialWorld"
  proof -
    from r have g: "guardInv w" by (simp add: guardInv_run guardInv_initial)
    have a: "hasTriggeredRefill (preSignedPool w)" if "refillInFlight w"
    proof (rule ccontr)
      assume n: "\<not> hasTriggeredRefill (preSignedPool w)"
      from that obtain i where i: "refillAt w i" "state (promises w ! i) = Pending"
        by (auto simp: refillInFlight_iff)
      from guardInvD(1) [OF g n i(1)] i(2) show False by simp
    qed
    have b: "currentIndex (preSignedPool w') mod 5 = 0 \<and> \<not> refillInFlight w"
      if t: "getNextTransaction acct w = Inr (tx, w')" and c: "promises w' \<noteq> promises w"
      for tx w'
    proof -
      from 1 [OF t] c
      have "currentIndex (preSignedPool w') mod 5 = 0 \<and> \<not> hasTriggeredRefill (preSignedPool w)"
        by (auto split: if_splits)
      with a show ?thesis by blast
    qed
    from a b show ?thesis by blast
  qed
  have 5: "promises w' = promises w"
    if "hasTriggeredRefill (preSignedPool w)" "getNextTransaction acct w = Inr (tx, w')"
    for tx w'
    using getNextTransaction_Inr(7) [OF that(2)] that(1) by simp
  from 1 trigger_nonces [of acct w] 3 4 5 show ?thesis by blast
qed

theorem refill_trigger_witness:
  "(\<exists>tx w'. getNextTransaction ''0xA'' lowWorld = Inr (tx, w')
      \<and> currentIndex (preSignedPool w') = 5
      \<and> promises w' = promises lowWorld @ trigger ''0xA'' lowWorld)
   \<and> (\<exists>txs. trigger ''0xA'' lowWorld = [\<lparr>job = SignBatch txs RefillCont, state = Pending\<rparr>]
        \<and> map tx_nonce txs = [110 ..< 120])
   \<and> (\<forall>t. demoSigner t \<noteq> None)
   \<and> (\<exists>txs w5 b. takeN ''0xA'' 5 demoWorld = Inr (txs, w5)
        \<and> map (\<lambda>t. tx_nonce (payload (the t))) txs = [100, 101, 102, 103, 104]
        \<and> refills w5 = [\<lparr>job = SignBatch b RefillCont, state = Pending\<rparr>]
        \<and> map tx_nonce b = [110 ..< 120])
   \<and> (\<exists>tx w'. getNextTransaction ''0xA'' (run ''0xA'' (primeTrace @ fourRounds) initialWorld)
                = Inr (tx, w')
        \<and> promises w' \<noteq> promises (run ''0xA'' (primeTrace @ fourRounds) initialWorld)
        \<and> currentIndex (preSignedPool w') = 5
        \<and> \<not> refillInFlight (run ''0xA'' (primeTrace @ fourRounds) initialWorld))
   \<and> currentIndex (preSignedPool (run ''0xA'' stuckTrace initialWorld)) = 9
   \<and> hasTriggeredRefill (preSignedPool (run ''0xA'' stuckTrace initialWorld))
   \<and> map state (promises (run ''0xA'' stuckTrace initialWorld))
       = [Fulfilled, Fulfilled, Fulfilled, Rejected]
   \<and> \<not> refillInFlight (run ''0xA'' stuckTrace initialWorld)
   \<and> (\<exists>tx w'. getNextTransaction ''0xA'' (run ''0xA'' stuckTrace initialWorld) = Inr (tx, w')
        \<and> currentIndex (preSignedPool w') = 10
        \<and> promises w' = promises (run ''0xA'' stuckTrace initialWorld))"
proof -
  have f: "currentIndex (preSignedPool lowWorld) = 4"
    "length (transactions (preSignedPool lowWorld)) = 10"
    "baseNonce (preSignedPool lowWorld) = 100"
    "hasTriggeredRefill (preSignedPool lowWorld) = False"
    by (simp_all add: lowWorld_def demoWorld_pool)
  from getNextTransaction_succeeds [of lowWorld "''0xA''"] f obtain tx w' where
    g: "getNextTransaction ''0xA'' lowWorld = Inr (tx, w')"
    by auto
  note t = refill_trigger [where acct = "''0xA''" and w = lowWorld and sign = demoSigner
      and N = 100 and gas = 7 and gl = 21000]
  from t g have a: "currentIndex (preSignedPool w') = currentIndex (preSignedPool lowWorld) + 1
     \<and> promises w' = promises lowWorld @
         (if currentIndex (preSignedPool w') mod 5 = 0 \<and> \<not> hasTriggeredRefill (preSignedPool lowWorld)
          then trigger ''0xA'' lowWorld else [])"
    by blast
  with f g have 1: "\<exists>tx w'. getNextTransaction ''0xA'' lowWorld = Inr (tx, w')
      \<and> currentIndex (preSignedPool w') = 5
      \<and> promises w' = promises lowWorld @ trigger ''0xA'' lowWorld"
    by auto
  from t obtain txs where "trigger ''0xA'' lowWorld = [\<lparr>job = SignBatch txs RefillCont, state = Pending\<rparr>]"
    and "map tx_nonce txs
            = [baseNonce (preSignedPool lowWorld) + length (transactions (preSignedPool lowWorld))
                 ..< baseNonce (preSignedPool lowWorld) + length (transactions (preSignedPool lowWorld)) + 10]"
    by blast
  with f have 2: "\<exists>txs. trigger ''0xA'' lowWorld = [\<lparr>job = SignBatch txs RefillCont, state = Pending\<rparr>]
        \<and> map tx_nonce txs = [110 ..< 120]"
    by (simp del: upt.simps upt_rec_numeral)
  have "\<exists>txs w5 b. takeN ''0xA'' 5 (primedWorld ''0xA'' 100 7 21000 demoSigner) = Inr (txs, w5)
            \<and> map (\<lambda>t. tx_nonce (payload (the t))) txs = [100, 100 + 1, 100 + 2, 100 + 3, 100 + 4]
            \<and> refills w5 = [\<lparr>job = SignBatch b RefillCont, state = Pending\<rparr>]
            \<and> length b = 10
            \<and> map tx_nonce b = [100 + 10 ..< 100 + 20]"
    by (rule mp [OF t [THEN conjunct2, THEN conjunct2, THEN conjunct1] demoSigner_total])
  then have 3: "\<exists>txs w5 b. takeN ''0xA'' 5 demoWorld = Inr (txs, w5)
        \<and> map (\<lambda>t. tx_nonce (payload (the t))) txs = [100, 101, 102, 103, 104]
        \<and> refills w5 = [\<lparr>job = SignBatch b RefillCont, state = Pending\<rparr>]
        \<and> map tx_nonce b = [110 ..< 120]"
    by (elim exE conjE, intro exI conjI)
       (simp_all add: demoWorld_def del: upt.simps upt_rec_numeral)
  let ?w4 = "run ''0xA'' (primeTrace @ fourRounds) initialWorld"
  have c4: "currentIndex (preSignedPool ?w4) = 4" "length (transactions (preSignedPool ?w4)) = 10"
    "\<not> hasTriggeredRefill (preSignedPool ?w4)"
    by code_simp+
  from getNextTransaction_succeeds [of ?w4 "''0xA''"] c4 obtain tx4 w4' where
    g4: "getNextTransaction ''0xA'' ?w4 = Inr (tx4, w4')"
    by auto
  note t4 = refill_trigger [where acct = "''0xA''" and w = ?w4 and evs = "primeTrace @ fourRounds"]
  from t4 g4 have a4: "currentIndex (preSignedPool w4') = currentIndex (preSignedPool ?w4) + 1
     \<and> promises w4' = promises ?w4 @
         (if currentIndex (preSignedPool w4') mod 5 = 0 \<and> \<not> hasTriggeredRefill (preSignedPool ?w4)
          then trigger ''0xA'' ?w4 else [])"
    by blast
  with c4 have n4: "currentIndex (preSignedPool w4') = 5" "promises w4' \<noteq> promises ?w4"
    by (simp_all add: trigger_def)
  from t4 g4 n4(2) have "\<not> refillInFlight ?w4" by blast
  with g4 n4 have 4: "\<exists>tx w'. getNextTransaction ''0xA'' ?w4 = Inr (tx, w')
        \<and> promises w' \<noteq> promises ?w4
        \<and> currentIndex (preSignedPool w') = 5
        \<and> \<not> refillInFlight ?w4"
    by blast
  let ?w9 = "run ''0xA'' stuckTrace initialWorld"
  have c9: "currentIndex (preSignedPool ?w9) = 9" "length (transactions (preSignedPool ?w9)) = 10"
    by code_simp+
  have h9: "hasTriggeredRefill (preSignedPool ?w9)" by code_simp
  have s9: "map state (promises ?w9) = [Fulfilled, Fulfilled, Fulfilled, Rejected]" by code_simp
  have r9: "\<not> refillInFlight ?w9" by code_simp
  from getNextTransaction_succeeds [of ?w9 "''0xA''"] c9 obtain tx9 w9' where
    g9: "getNextTransaction ''0xA'' ?w9 = Inr (tx9, w9')"
    by auto
  note t9 = refill_trigger [where acct = "''0xA''" and w = ?w9]
  from t9 g9 have "currentIndex (preSignedPool w9') = currentIndex (preSignedPool ?w9) + 1"
    by blast
  with c9 have n9: "currentIndex (preSignedPool w9') = 10" by simp
  from t9 h9 r9 g9 have "promises w9' = promises ?w9" by blast
  with g9 n9 have 5: "\<exists>tx w'. getNextTransaction ''0xA'' ?w9 = Inr (tx, w')
        \<and> currentIndex (preSignedPool w') = 10
        \<and> promises w' = promises ?w9"
    by blast
  show ?thesis
    by (intro conjI) (rule 1 2 demoSigner_total 3 4 c9(1) h9 s9 r9 5)+
qed

text \<open>
  Claim C5, what the code keeps of it. In every world that a run reaches, at most one
  refill is pending, a pending refill has the guard set, and a take with the guard set
  starts no refill. Along a run on which \<^verbatim>\<open>baseNonce\<close> is never lowered, no two refills
  share a sequence number.
\<close>

theorem one_refill_at_a_time:
  assumes "w = run acct evs initialWorld"
  shows "(\<forall>i j. refillAt w i \<and> state (promises w ! i) = Pending
            \<and> refillAt w j \<and> state (promises w ! j) = Pending \<longrightarrow> i = j)
     \<and> (\<forall>i. refillAt w i \<and> state (promises w ! i) = Pending
            \<longrightarrow> hasTriggeredRefill (preSignedPool w))
     \<and> (\<forall>tx w'. hasTriggeredRefill (preSignedPool w) \<and> getNextTransaction acct w = Inr (tx, w')
            \<longrightarrow> promises w' = promises w)
     \<and> (baseMonotone acct evs initialWorld \<longrightarrow>
          (\<forall>i j. refillAt w i \<and> refillAt w j \<and> i \<noteq> j
             \<longrightarrow> nonces (promises w ! i) \<inter> nonces (promises w ! j) = {}))"
proof -
  from assms have g: "guardInv w" by (simp add: guardInv_run guardInv_initial)
  have 1: "i = j" if "refillAt w i" "state (promises w ! i) = Pending"
    "refillAt w j" "state (promises w ! j) = Pending" for i j
    using guardInvD(2) [OF g that(1,3)] that(2,4) by simp
  have 2: "hasTriggeredRefill (preSignedPool w)" if "refillAt w i" "state (promises w ! i) = Pending"
    for i
    using guardInvD(1) [OF g _ that(1)] that(2) by auto
  have 3: "promises w' = promises w"
    if "hasTriggeredRefill (preSignedPool w)" "getNextTransaction acct w = Inr (tx, w')" for tx w'
    using getNextTransaction_Inr(7) [OF that(2)] that(1) by simp
  have 4: "nonces (promises w ! i) \<inter> nonces (promises w ! j) = {}"
    if "baseMonotone acct evs initialWorld" "refillAt w i" "refillAt w j" "i \<noteq> j" for i j
  proof -
    from rangeInv_run [OF rangeInv_initial guardInv_initial that(1)] assms
    have "rangeInv w" by simp
    from rangeInvD(3) [OF this that(2,3,4)] show ?thesis .
  qed
  from 1 2 3 4 show ?thesis by blast
qed

theorem one_refill_at_a_time_witness:
  "baseMonotone ''0xA'' twoRefillTrace initialWorld
   \<and> refillAt (run ''0xA'' twoRefillTrace initialWorld) 3
   \<and> refillAt (run ''0xA'' twoRefillTrace initialWorld) 4
   \<and> state (promises (run ''0xA'' twoRefillTrace initialWorld) ! 4) = Pending
   \<and> hasTriggeredRefill (preSignedPool (run ''0xA'' twoRefillTrace initialWorld))
   \<and> nonces (promises (run ''0xA'' twoRefillTrace initialWorld) ! 3)
       \<inter> nonces (promises (run ''0xA'' twoRefillTrace initialWorld) ! 4) = {}
   \<and> (\<exists>tx w'. getNextTransaction ''0xA'' (run ''0xA'' twoRefillTrace initialWorld) = Inr (tx, w')
        \<and> promises w' = promises (run ''0xA'' twoRefillTrace initialWorld))"
proof -
  let ?w = "run ''0xA'' twoRefillTrace initialWorld"
  have m: "baseMonotone ''0xA'' twoRefillTrace initialWorld" by code_simp
  have r: "refillAt ?w 3" "refillAt ?w 4" "state (promises ?w ! 4) = Pending"
    by code_simp+
  have c: "currentIndex (preSignedPool ?w) < length (transactions (preSignedPool ?w))"
    by code_simp
  note t = one_refill_at_a_time [OF refl, of "''0xA''" twoRefillTrace]
  from t r have g: "hasTriggeredRefill (preSignedPool ?w)" by blast
  from t m r have d: "nonces (promises ?w ! 3) \<inter> nonces (promises ?w ! 4) = {}"
    by (elim conjE impE) (rule m, simp)
  from getNextTransaction_succeeds [OF c, of "''0xA''"] obtain tx w' where
    n: "getNextTransaction ''0xA'' ?w = Inr (tx, w')" by blast
  with t g have "promises w' = promises ?w" by blast
  with n have "\<exists>tx w'. getNextTransaction ''0xA'' ?w = Inr (tx, w') \<and> promises w' = promises ?w"
    by blast
  with m r g d show ?thesis by simp
qed

text \<open>
  Claim C5 fails on the code. The start of a refill, \<^verbatim>\<open>baseNonce + transactions.length\<close>,
  is the next unused sequence number only while \<^verbatim>\<open>baseNonce\<close> is the sequence number of
  the first entry; \<^verbatim>\<open>init\<close> assigns \<^verbatim>\<open>baseNonce\<close> whenever its queries resolve, also
  under a pool in use. When the queries of an earlier \<^verbatim>\<open>init\<close> resolve late with a
  smaller transaction count, the next refill starts at a sequence number that an earlier
  refill has signed already.
\<close>

theorem overlapping_refills:
  "refillAt (run ''0xA'' overlapTrace initialWorld) 4
   \<and> refillAt (run ''0xA'' overlapTrace initialWorld) 6
   \<and> 110 \<in> nonces (promises (run ''0xA'' overlapTrace initialWorld) ! 4)
   \<and> 110 \<in> nonces (promises (run ''0xA'' overlapTrace initialWorld) ! 6)"
  by code_simp

subsection \<open>A refill whose signing fails\<close>

lemma stuck_refillStep:
  assumes "stuck w" and "refillStep acct w w'"
  shows "quietStep w w'"
proof -
  from assms(1) have g: "hasTriggeredRefill (preSignedPool w)"
    and n: "\<And>i. refillAt w i \<Longrightarrow> state (promises w ! i) \<noteq> Pending"
    by (simp_all add: stuck_def)
  have "\<not> triggerStep acct w w'" using g by (simp add: triggerStep_def)
  moreover have "\<not> fulfilStep w w'"
  proof
    assume "fulfilStep w w'"
    then obtain k txs where "k < length (promises w)"
      "job (promises w ! k) = SignBatch txs RefillCont" "state (promises w ! k) = Pending"
      unfolding fulfilStep_def by blast
    with n [of k] show False by (simp add: refillAt_def)
  qed
  moreover have "\<not> rejectStep w w'"
  proof
    assume "rejectStep w w'"
    then obtain k txs where "k < length (promises w)"
      "job (promises w ! k) = SignBatch txs RefillCont" "state (promises w ! k) = Pending"
      unfolding rejectStep_def by blast
    with n [of k] show False by (simp add: refillAt_def)
  qed
  ultimately show ?thesis using assms(2) by (simp add: refillStep_def)
qed

lemma stuck_run:
  assumes "stuck w"
  shows "stuck (run acct evs w)
    \<and> (\<forall>i. refillAt (run acct evs w) i \<longrightarrow>
          refillAt w i \<and> promises (run acct evs w) ! i = promises w ! i)"
  using assms
proof (induction evs arbitrary: w)
  case Nil
  then show ?case by simp
next
  case (Cons e evs)
  let ?w1 = "step acct e w"
  from stuck_refillStep [OF Cons.prems refillStep_step] have q: "quietStep w ?w1" .
  note r = refillAt_quiet [OF q]
  from q have g: "hasTriggeredRefill (preSignedPool ?w1) = hasTriggeredRefill (preSignedPool w)"
    by (simp add: quietStep_def)
  from Cons.prems g r have s: "stuck ?w1" by (simp add: stuck_def)
  from Cons.IH [OF s] r show ?case by simp
qed

text \<open>
  Claim C1 fails on the code. When a signing of the pending refill fails, the promise is
  rejected and the pool is left as it was, so the buffer keeps its length; but the refill has
  a \<^verbatim>\<open>.then\<close> callback only, so the guard stays set, and it stays set along every run
  from there: no take starts a refill again, whatever multiple of five the cursor crosses.
  (When every signing succeeds the entries are appended and the guard is cleared.)
\<close>

theorem refill_failure_guard_stuck:
  assumes "w = run acct evs initialWorld"
    and "k < length (promises w)" and "job (promises w ! k) = SignBatch txs RefillCont"
    and "state (promises w ! k) = Pending" and "\<exists>t \<in> set txs. sign t = None"
    and "w1 = step acct (BatchSettled k sign) w" and "w' = run acct evs' w1"
  shows "state (promises w1 ! k) = Rejected
     \<and> preSignedPool w1 = preSignedPool w
     \<and> hasTriggeredRefill (preSignedPool w1)
     \<and> hasTriggeredRefill (preSignedPool w')
     \<and> (\<forall>i. refillAt w' i \<longrightarrow>
           refillAt w i \<and> job (promises w' ! i) = job (promises w ! i)
           \<and> state (promises w' ! i) \<noteq> Pending)
     \<and> (\<forall>tx w''. getNextTransaction acct w' = Inr (tx, w'') \<longrightarrow> promises w'' = promises w')
     \<and> ((\<forall>t \<in> set txs. okSign t \<noteq> None) \<longrightarrow>
           \<not> hasTriggeredRefill (preSignedPool (step acct (BatchSettled k okSign) w))
         \<and> transactions (preSignedPool (step acct (BatchSettled k okSign) w))
             = transactions (preSignedPool w) @ map (sealed okSign) txs)"
proof -
  from assms(1) have g: "guardInv w" by (simp add: guardInv_run guardInv_initial)
  from assms(2,3) have rk: "refillAt w k" by (simp add: refillAt_def)
  from guardInvD(1) [OF g _ rk] assms(4) have gw: "hasTriggeredRefill (preSignedPool w)"
    by auto
  from batchSettled_failed_eq [OF assms(2,4,3,5)] assms(6)
  have w1: "w1 = w\<lparr>promises := (promises w)[k := (promises w ! k)\<lparr>state := Rejected\<rparr>]\<rparr>"
    by simp
  note r = refillAt_settled [of w1 w k Rejected]
  have p: "promises w1 = (promises w)[k := (promises w ! k)\<lparr>state := Rejected\<rparr>]"
    by (simp add: w1)
  have s1: "state (promises w1 ! i) \<noteq> Pending" if "refillAt w1 i" for i
  proof (cases "i = k")
    case True
    with assms(2) show ?thesis by (simp add: p)
  next
    case False
    from that have ri: "refillAt w i" by (simp add: r [OF p])
    from guardInvD(2) [OF g ri rk] False assms(4) have "state (promises w ! i) = Fulfilled"
      by auto
    with False show ?thesis by (simp add: p)
  qed
  with gw have st: "stuck w1" by (simp add: stuck_def w1)
  from stuck_run [OF st, of acct evs'] assms(7) have sw: "stuck w'"
    and same: "\<And>i. refillAt w' i \<Longrightarrow> refillAt w1 i \<and> promises w' ! i = promises w1 ! i"
    by simp_all
  have 5: "refillAt w i \<and> job (promises w' ! i) = job (promises w ! i)
           \<and> state (promises w' ! i) \<noteq> Pending" if "refillAt w' i" for i
  proof -
    from same [OF that] have a: "refillAt w1 i" "promises w' ! i = promises w1 ! i" by simp_all
    from a(1) have ri: "refillAt w i" by (simp add: r [OF p])
    then have "job (promises w1 ! i) = job (promises w ! i)"
      by (cases "i = k") (simp_all add: p refillAt_def)
    with a ri s1 [OF a(1)] show ?thesis by simp
  qed
  have 6: "promises w'' = promises w'" if "getNextTransaction acct w' = Inr (tx, w'')" for tx w''
    using getNextTransaction_Inr(7) [OF that] sw by (simp add: stuck_def)
  from assms(2) have "state (promises w1 ! k) = Rejected" by (simp add: p)
  moreover have "preSignedPool w1 = preSignedPool w" by (simp add: w1)
  moreover from sw have "hasTriggeredRefill (preSignedPool w')" by (simp add: stuck_def)
  moreover have "\<not> hasTriggeredRefill (preSignedPool (step acct (BatchSettled k okSign) w))
         \<and> transactions (preSignedPool (step acct (BatchSettled k okSign) w))
             = transactions (preSignedPool w) @ map (sealed okSign) txs"
    if "\<forall>t \<in> set txs. okSign t \<noteq> None"
    using batchSettled_ok_eq [OF assms(2,4,3) that] by simp
  ultimately show ?thesis using gw 5 6 by simp
qed

theorem refill_failure_guard_stuck_witness:
  "job (promises (run ''0xA'' (primeTrace @ oneGame) initialWorld) ! 3)
     = SignBatch (map (txDataFor ''0xA'' 7 21000 110) [0..<10]) RefillCont
   \<and> state (promises (run ''0xA'' (primeTrace @ oneGame) initialWorld) ! 3) = Pending
   \<and> failingSigner (txDataFor ''0xA'' 7 21000 110 0) = None
   \<and> hasTriggeredRefill (preSignedPool
        (step ''0xA'' (BatchSettled 3 failingSigner)
           (run ''0xA'' (primeTrace @ oneGame) initialWorld)))
   \<and> length (transactions (preSignedPool
        (step ''0xA'' (BatchSettled 3 failingSigner)
           (run ''0xA'' (primeTrace @ oneGame) initialWorld)))) = 10
   \<and> hasTriggeredRefill (preSignedPool
        (run ''0xA'' oneGame (step ''0xA'' (BatchSettled 3 failingSigner)
           (run ''0xA'' (primeTrace @ oneGame) initialWorld))))
   \<and> currentIndex (preSignedPool
        (run ''0xA'' oneGame (step ''0xA'' (BatchSettled 3 failingSigner)
           (run ''0xA'' (primeTrace @ oneGame) initialWorld)))) = 10
   \<and> length (promises
        (run ''0xA'' oneGame (step ''0xA'' (BatchSettled 3 failingSigner)
           (run ''0xA'' (primeTrace @ oneGame) initialWorld)))) = 4"
proof -
  let ?w = "run ''0xA'' (primeTrace @ oneGame) initialWorld"
  let ?txs = "map (txDataFor ''0xA'' 7 21000 110) [0..<10]"
  have k: "3 < length (promises ?w)" by code_simp
  have j: "job (promises ?w ! 3) = SignBatch ?txs RefillCont" by code_simp
  have s: "state (promises ?w ! 3) = Pending" by code_simp
  have f: "\<exists>t \<in> set ?txs. failingSigner t = None" by (simp add: failingSigner_def)
  have l: "length (transactions (preSignedPool ?w)) = 10" by code_simp
  have c: "currentIndex (preSignedPool
        (run ''0xA'' oneGame (step ''0xA'' (BatchSettled 3 failingSigner) ?w))) = 10"
    "length (promises
        (run ''0xA'' oneGame (step ''0xA'' (BatchSettled 3 failingSigner) ?w))) = 4"
    by code_simp+
  have f0: "failingSigner (txDataFor ''0xA'' 7 21000 110 0) = None"
    by (simp add: failingSigner_def)
  note t = refill_failure_guard_stuck [OF refl k j s f refl refl, of oneGame]
  note t2 = t [THEN conjunct2, THEN conjunct1]
  note t3 = t [THEN conjunct2, THEN conjunct2, THEN conjunct1]
  note t4 = t [THEN conjunct2, THEN conjunct2, THEN conjunct2, THEN conjunct1]
  from l have l1: "length (transactions (preSignedPool
        (step ''0xA'' (BatchSettled 3 failingSigner) ?w))) = 10"
    by (simp only: t2)
  show ?thesis
    by (intro conjI) (rule j s f0 t3 l1 t4 c)+
qed

subsection \<open>Initialising twice\<close>

text \<open>
  Claim C4 fails on the code. The effect calls \<^verbatim>\<open>init\<close> at every mount, and \<^verbatim>\<open>init\<close>
  appends its batch to the module-level buffer as it finds it. After the page has been
  entered twice, the transaction count being 100 both times, the buffer holds twenty
  entries; the entry at index 10 carries the sequence number 100 of the entry at index 0,
  not \<^verbatim>\<open>baseNonce + 10\<close>, and eleven takes in a row return 100 to 109 and then 100
  again.
\<close>

theorem reinit_breaks_sequence:
  "isReady (run ''0xA'' reinitTrace initialWorld)
   \<and> baseNonce (preSignedPool (run ''0xA'' reinitTrace initialWorld)) = 100
   \<and> length (transactions (preSignedPool (run ''0xA'' reinitTrace initialWorld))) = 20
   \<and> tx_nonce (payload (transactions (preSignedPool (run ''0xA'' reinitTrace initialWorld)) ! 0)) = 100
   \<and> tx_nonce (payload (transactions (preSignedPool (run ''0xA'' reinitTrace initialWorld)) ! 10)) = 100
   \<and> map_sum id (\<lambda>(txs, w). map (\<lambda>t. tx_nonce (payload (the t))) txs)
        (takeN ''0xA'' 11 (run ''0xA'' reinitTrace initialWorld))
       = Inr [100, 101, 102, 103, 104, 105, 106, 107, 108, 109, 100]"
  by code_simp

subsection \<open>What each operation writes\<close>

lemma queriesSettled_base:
  assumes "baseNonce (preSignedPool (queriesSettled k r w)) \<noteq> baseNonce (preSignedPool w)"
  shows "\<exists>m nonce gas. r = Some (nonce, gas) \<and> k < length (promises w)
     \<and> job (promises w ! k) = Queries m \<and> state (promises w ! k) = Pending
     \<and> baseNonce (preSignedPool (queriesSettled k r w)) = nonce
     \<and> state (promises (queriesSettled k r w) ! k) = Fulfilled"
proof (cases rule: queriesSettled_cases [of k r w])
  case none
  with assms show ?thesis by simp
next
  case (ok m nonce gas)
  then show ?thesis by (simp add: nth_append)
next
  case (failed m)
  with assms show ?thesis by simp
qed

lemma baseNonce_step:
  assumes "baseNonce (preSignedPool (step acct e w)) \<noteq> baseNonce (preSignedPool w)"
  shows "\<exists>k m nonce gas. e = QueriesSettled k (Some (nonce, gas)) \<and> k < length (promises w)
     \<and> job (promises w ! k) = Queries m \<and> state (promises w ! k) = Pending
     \<and> baseNonce (preSignedPool (step acct e w)) = nonce
     \<and> state (promises (step acct e w) ! k) = Fulfilled"
proof (cases e)
  case (QueriesSettled k r)
  with assms queriesSettled_base [of k r w] show ?thesis by auto
next
  case (BatchSettled k sign)
  with assms show ?thesis by (simp add: pool_batchSettled)
next
  case (Click now txStart)
  have "baseNonce (preSignedPool (handleClick acct now txStart w)) = baseNonce (preSignedPool w)"
  proof (cases rule: handleClick_pool_cases [of acct now txStart w])
    case same
    then show ?thesis by simp
  next
    case (take tx w1 w2)
    with getNextTransaction_Inr(5) [OF take(5)] show ?thesis by simp
  qed
  with assms Click show ?thesis by simp
qed (use assms in simp_all)

lemma settled_stays:
  assumes "k < length (promises w)" and "state (promises w ! k) \<noteq> Pending"
  shows "state (promises (run acct evs w) ! k) = state (promises w ! k)"
  using extends_run [of w acct evs] assms by (auto simp: extends_def)

text \<open>
  Claim C10, as the code has it. \<^verbatim>\<open>preSignBatch\<close> leaves the pool and the gas parameters
  as they are at its call and, when it resumes, only appends to the buffer; so does the
  whole step that settles a batch, which leaves the cursor and \<^verbatim>\<open>baseNonce\<close> alone. A
  take leaves the buffer and \<^verbatim>\<open>baseNonce\<close> alone, advances the cursor by one and never
  clears the guard. \<^verbatim>\<open>baseNonce\<close> is written by one step only, the one at which the
  start-up queries of an \<^verbatim>\<open>init\<close> resolve, and the promise of these queries is settled
  from then on: each run of \<^verbatim>\<open>init\<close> writes it at most once.
\<close>

theorem frame_conditions:
  "(preSignedPool (preSignBatch acct s n c w) = preSignedPool w
      \<and> gasPrice (preSignBatch acct s n c w) = gasPrice w
      \<and> gasLimit (preSignBatch acct s n c w) = gasLimit w)
   \<and> (transactions (preSignedPool (preSignBatch_resume new n w))
          = transactions (preSignedPool w) @ new
      \<and> currentIndex (preSignedPool (preSignBatch_resume new n w)) = currentIndex (preSignedPool w)
      \<and> baseNonce (preSignedPool (preSignBatch_resume new n w)) = baseNonce (preSignedPool w)
      \<and> hasTriggeredRefill (preSignedPool (preSignBatch_resume new n w))
          = hasTriggeredRefill (preSignedPool w)
      \<and> gasPrice (preSignBatch_resume new n w) = gasPrice w
      \<and> gasLimit (preSignBatch_resume new n w) = gasLimit w)
   \<and> ((\<exists>xs. transactions (preSignedPool (batchSettled k sign w))
               = transactions (preSignedPool w) @ xs)
      \<and> currentIndex (preSignedPool (batchSettled k sign w)) = currentIndex (preSignedPool w)
      \<and> baseNonce (preSignedPool (batchSettled k sign w)) = baseNonce (preSignedPool w)
      \<and> gasPrice (batchSettled k sign w) = gasPrice w
      \<and> gasLimit (batchSettled k sign w) = gasLimit w)
   \<and> (\<forall>tx w'. getNextTransaction acct w = Inr (tx, w') \<longrightarrow>
          transactions (preSignedPool w') = transactions (preSignedPool w)
        \<and> baseNonce (preSignedPool w') = baseNonce (preSignedPool w)
        \<and> currentIndex (preSignedPool w') = currentIndex (preSignedPool w) + 1
        \<and> (hasTriggeredRefill (preSignedPool w) \<longrightarrow> hasTriggeredRefill (preSignedPool w'))
        \<and> gasPrice w' = gasPrice w \<and> gasLimit w' = gasLimit w)
   \<and> (baseNonce (preSignedPool (step acct e w)) \<noteq> baseNonce (preSignedPool w) \<longrightarrow>
         (\<exists>i m nonce gas. e = QueriesSettled i (Some (nonce, gas)) \<and> i < length (promises w)
            \<and> job (promises w ! i) = Queries m \<and> state (promises w ! i) = Pending
            \<and> baseNonce (preSignedPool (step acct e w)) = nonce
            \<and> state (promises (step acct e w) ! i) = Fulfilled))
   \<and> (\<forall>i r evs. i < length (promises w) \<and> state (promises w ! i) \<noteq> Pending \<longrightarrow>
          queriesSettled i r (run acct evs w) = run acct evs w)"
proof -
  have 1: "preSignedPool (preSignBatch acct s n c w) = preSignedPool w
      \<and> gasPrice (preSignBatch acct s n c w) = gasPrice w
      \<and> gasLimit (preSignBatch acct s n c w) = gasLimit w"
    by (simp add: preSignBatch_def)
  have 2: "transactions (preSignedPool (preSignBatch_resume new n w))
          = transactions (preSignedPool w) @ new
      \<and> currentIndex (preSignedPool (preSignBatch_resume new n w)) = currentIndex (preSignedPool w)
      \<and> baseNonce (preSignedPool (preSignBatch_resume new n w)) = baseNonce (preSignedPool w)
      \<and> hasTriggeredRefill (preSignedPool (preSignBatch_resume new n w))
          = hasTriggeredRefill (preSignedPool w)
      \<and> gasPrice (preSignBatch_resume new n w) = gasPrice w
      \<and> gasLimit (preSignBatch_resume new n w) = gasLimit w"
    by (simp add: preSignBatch_resume_def Let_def)
  have g: "gasPrice (batchSettled k sign w) = gasPrice w \<and> gasLimit (batchSettled k sign w) = gasLimit w"
    by (simp add: batchSettled_def settle_def preSignBatch_resume_def setIsReady_def Let_def
        split: job.splits option.splits continuation.splits)
  with pool_batchSettled [of k sign w]
  have 3: "(\<exists>xs. transactions (preSignedPool (batchSettled k sign w))
               = transactions (preSignedPool w) @ xs)
      \<and> currentIndex (preSignedPool (batchSettled k sign w)) = currentIndex (preSignedPool w)
      \<and> baseNonce (preSignedPool (batchSettled k sign w)) = baseNonce (preSignedPool w)
      \<and> gasPrice (batchSettled k sign w) = gasPrice w
      \<and> gasLimit (batchSettled k sign w) = gasLimit w"
    by blast
  have 4: "transactions (preSignedPool w') = transactions (preSignedPool w)
        \<and> baseNonce (preSignedPool w') = baseNonce (preSignedPool w)
        \<and> currentIndex (preSignedPool w') = currentIndex (preSignedPool w) + 1
        \<and> (hasTriggeredRefill (preSignedPool w) \<longrightarrow> hasTriggeredRefill (preSignedPool w'))
        \<and> gasPrice w' = gasPrice w \<and> gasLimit w' = gasLimit w"
    if "getNextTransaction acct w = Inr (tx, w')" for tx w'
    using getNextTransaction_Inr [OF that] by simp
  have 6: "queriesSettled i r (run acct evs w) = run acct evs w"
    if "i < length (promises w)" "state (promises w ! i) \<noteq> Pending" for i r evs
    using settled_stays [OF that, of acct evs] that(2) by (simp add: queriesSettled_def)
  from 1 2 3 4 baseNonce_step [of acct e w] 6 show ?thesis by blast
qed

theorem frame_conditions_witness:
  "(\<exists>tx w'. getNextTransaction ''0xA'' demoWorld = Inr (tx, w')
      \<and> transactions (preSignedPool w') = transactions (preSignedPool demoWorld)
      \<and> baseNonce (preSignedPool w') = 100
      \<and> currentIndex (preSignedPool w') = 1)
   \<and> queriesSettled 0 (Some (5, 5)) (run ''0xA'' oneGame demoWorld) = run ''0xA'' oneGame demoWorld
   \<and> baseNonce (preSignedPool (step ''0xA'' (QueriesSettled 0 (Some (100, 7))) mountedWorld))
       \<noteq> baseNonce (preSignedPool mountedWorld)
   \<and> baseNonce (preSignedPool (step ''0xA'' (QueriesSettled 0 (Some (100, 7))) mountedWorld)) = 100
   \<and> state (promises (step ''0xA'' (QueriesSettled 0 (Some (100, 7))) mountedWorld) ! 0) = Fulfilled"
proof -
  note a = frame_conditions [of "''0xA''" 0 0 RefillCont demoWorld "[]" 0 demoSigner
      "QueriesSettled 0 (Some (100, 7))"]
  note b = frame_conditions [of "''0xA''" 0 0 RefillCont mountedWorld "[]" 0 demoSigner
      "QueriesSettled 0 (Some (100, 7))"]
  have c: "currentIndex (preSignedPool demoWorld) < length (transactions (preSignedPool demoWorld))"
    by (simp add: demoWorld_pool)
  from getNextTransaction_succeeds [OF c, of "''0xA''"] obtain tx w' where
    g: "getNextTransaction ''0xA'' demoWorld = Inr (tx, w')" by blast
  from a g have "transactions (preSignedPool w') = transactions (preSignedPool demoWorld)
        \<and> baseNonce (preSignedPool w') = baseNonce (preSignedPool demoWorld)
        \<and> currentIndex (preSignedPool w') = currentIndex (preSignedPool demoWorld) + 1"
    by blast
  with g have 1: "\<exists>tx w'. getNextTransaction ''0xA'' demoWorld = Inr (tx, w')
      \<and> transactions (preSignedPool w') = transactions (preSignedPool demoWorld)
      \<and> baseNonce (preSignedPool w') = 100
      \<and> currentIndex (preSignedPool w') = 1"
    by (auto simp: demoWorld_pool)
  have s: "0 < length (promises demoWorld) \<and> state (promises demoWorld ! 0) \<noteq> Pending"
    by (simp add: demoWorld_def primedWorld_eq [OF demoSigner_total])
  with a have 2: "queriesSettled 0 (Some (5, 5)) (run ''0xA'' oneGame demoWorld)
      = run ''0xA'' oneGame demoWorld"
    by blast
  have d: "baseNonce (preSignedPool (step ''0xA'' (QueriesSettled 0 (Some (100, 7))) mountedWorld))
       \<noteq> baseNonce (preSignedPool mountedWorld)"
    by code_simp
  with b have "\<exists>i m nonce gas. QueriesSettled 0 (Some (100, 7)) = QueriesSettled i (Some (nonce, gas))
        \<and> i < length (promises mountedWorld)
        \<and> job (promises mountedWorld ! i) = Queries m \<and> state (promises mountedWorld ! i) = Pending
        \<and> baseNonce (preSignedPool (step ''0xA'' (QueriesSettled 0 (Some (100, 7))) mountedWorld)) = nonce
        \<and> state (promises (step ''0xA'' (QueriesSettled 0 (Some (100, 7))) mountedWorld) ! i) = Fulfilled"
    by blast
  then have 3: "baseNonce (preSignedPool (step ''0xA'' (QueriesSettled 0 (Some (100, 7))) mountedWorld)) = 100
   \<and> state (promises (step ''0xA'' (QueriesSettled 0 (Some (100, 7))) mountedWorld) ! 0) = Fulfilled"
    by auto
  from 1 2 d 3 show ?thesis by blast
qed

text \<open>
  Claim C10, as it is stated, fails in its last part: \<^verbatim>\<open>init\<close> runs at every mount, and
  the second run writes \<^verbatim>\<open>baseNonce\<close> again.
\<close>

theorem baseNonce_written_twice:
  "baseNonce (preSignedPool (run ''0xA'' [Mount, QueriesSettled 0 (Some (100, 7))] initialWorld)) = 100
   \<and> baseNonce (preSignedPool (run ''0xA'' [Mount, QueriesSettled 0 (Some (100, 7)),
        Mount, QueriesSettled 2 (Some (105, 7))] initialWorld)) = 105"
  by code_simp

end
